theory Spec2Isabelle
  imports Main "HOL-Library.Multiset"
begin

section \<open>The virtual node model\<close>

text \<open>
  A virtual node is a JavaScript object, and so is its children array. The engine tests
  both for reference identity (\<open>oldVnode === vnode\<close>, \<open>oldCh !== ch\<close>), so every vnode
  and every children array carries an identity tag. \<open>Synthetic\<close> tags the objects the
  engine allocates itself (the wrapper built by \<open>emptyNodeAt\<close> and its empty array):
  they are identical to no object the caller holds.
\<close>

datatype ref = Ref nat | Synthetic

text \<open>
  The per-node hooks of \<open>data.hook\<close>. A hook is caller code: the model records that it
  is there (and, in the trace, that it was called), and takes it to leave vnodes and
  host tree alone. The one effect the engine depends on is how often a \<open>remove\<close> hook
  calls the completion callback \<open>rm\<close> it is given before it returns: that number is
  the hook's value here.
\<close>

record hooks =
  on_init :: bool
  on_create :: bool
  on_insert :: bool
  on_prepatch :: bool
  on_update :: bool
  on_postpatch :: bool
  on_destroy :: bool
  on_remove :: "nat option"

record vdata =
  ns :: "string option"
  is_tag :: "string option"
  hook :: "hooks option"

text \<open>
  A key is a string or a number; \<open>sameVnode\<close> compares keys with \<open>===\<close>, so the number
  \<open>1\<close> and the string \<open>"1"\<close> are different keys. A number is held by its rendering as a
  string (what \<open>String(n)\<close> gives), which is also the property name under which a plain
  object stores it. (\<open>NaN\<close>, which is not equal to itself, is left out.)
\<close>

datatype vkey = KString string | KNumber string

fun prop_name :: "vkey \<Rightarrow> string" where
  "prop_name (KString s) = s"
| "prop_name (KNumber n) = n"

text \<open>
  A children slot is \<open>None\<close> when it is \<open>null\<close> or \<open>undefined\<close>; the engine tests both
  with \<open>== null\<close>.
\<close>

datatype vnode =
  VNode (vid: ref) (sel: "string option") (key: "vkey option") (data: "vdata option")
        (children: "(ref \<times> vnode option list) option") (vtext: "string option")
        (elm: "nat option")

definition emptyData :: vdata where
  "emptyData = \<lparr>ns = None, is_tag = None, hook = None\<rparr>"

definition emptyNode :: vnode where
  "emptyNode = VNode Synthetic (Some '''') None (Some emptyData) (Some (Synthetic, [])) None None"

text \<open>Reading an array slot: out of range JavaScript yields \<open>undefined\<close>.\<close>

definition slot :: "'a option list \<Rightarrow> int \<Rightarrow> 'a option" where
  "slot xs i = (if 0 \<le> i \<and> i < int (length xs) then xs ! nat i else None)"

fun data_is :: "vnode \<Rightarrow> string option" where
  "data_is v = (case data v of None \<Rightarrow> None | Some d \<Rightarrow> is_tag d)"

fun data_hook :: "vnode \<Rightarrow> hooks option" where
  "data_hook v = (case data v of None \<Rightarrow> None | Some d \<Rightarrow> hook d)"

definition sameVnode :: "vnode \<Rightarrow> vnode \<Rightarrow> bool" where
  "sameVnode vnode1 vnode2 =
     (let isSameKey = (key vnode1 = key vnode2);
          isSameIs = (data_is vnode1 = data_is vnode2);
          isSameSel = (sel vnode1 = sel vnode2)
      in isSameSel \<and> isSameKey \<and> isSameIs)"

section \<open>The key map of the old children\<close>

text \<open>\<open>children[i]?.key\<close>\<close>

definition slot_key :: "vnode option list \<Rightarrow> int \<Rightarrow> vkey option" where
  "slot_key chs i = (case slot chs i of None \<Rightarrow> None | Some c \<Rightarrow> key c)"

text \<open>The property name under which the child in slot \<open>i\<close> is recorded, if it has a key.\<close>

definition slot_name :: "vnode option list \<Rightarrow> int \<Rightarrow> string option" where
  "slot_name chs i = (case slot_key chs i of None \<Rightarrow> None | Some k \<Rightarrow> Some (prop_name k))"

text \<open>
  The map is a plain object (\<open>{}\<close>) used as a dictionary, so it has the prototype
  \<open>Object.prototype\<close>. Its own properties are a map from property names to indices. What it
  inherits shows in two places. The assignment \<open>map["__proto__"] = i\<close> goes to the
  inherited setter, which ignores a number: nothing is recorded. A read of a name that is
  no own property finds what \<open>Object.prototype\<close> has under that name: the prototype
  itself for \<open>__proto__\<close>, a function for the others, and \<open>undefined\<close> for every other
  name.
\<close>

definition object_prototype_names :: "string list" where
  "object_prototype_names =
     [''__proto__'', ''constructor'', ''hasOwnProperty'', ''isPrototypeOf'',
      ''propertyIsEnumerable'', ''toLocaleString'', ''toString'', ''valueOf'',
      ''__defineGetter__'', ''__defineSetter__'', ''__lookupGetter__'', ''__lookupSetter__'']"

definition obj_set :: "(string \<rightharpoonup> int) \<Rightarrow> string \<Rightarrow> int \<Rightarrow> (string \<rightharpoonup> int)" where
  "obj_set m name i = (if name = ''__proto__'' then m else m(name \<mapsto> i))"

datatype lookup = Undefined | Index int | Inherited

definition obj_get :: "(string \<rightharpoonup> int) \<Rightarrow> string \<Rightarrow> lookup" where
  "obj_get m name =
     (case m name of
        Some i \<Rightarrow> Index i
      | None \<Rightarrow> if name \<in> set object_prototype_names then Inherited else Undefined)"

function createKeyToOldIdx_loop ::
  "vnode option list \<Rightarrow> int \<Rightarrow> int \<Rightarrow> (string \<rightharpoonup> int) \<Rightarrow> (string \<rightharpoonup> int)" where
  "createKeyToOldIdx_loop chs i endIdx m =
     (if i \<le> endIdx then
        (case slot_key chs i of
           None \<Rightarrow> createKeyToOldIdx_loop chs (i + 1) endIdx m
         | Some k \<Rightarrow> createKeyToOldIdx_loop chs (i + 1) endIdx (obj_set m (prop_name k) i))
      else m)"
  by pat_completeness auto
termination
  by (relation "measure (\<lambda>(chs, i, endIdx, m). nat (endIdx + 1 - i))") auto

definition createKeyToOldIdx :: "vnode option list \<Rightarrow> int \<Rightarrow> int \<Rightarrow> (string \<rightharpoonup> int)" where
  "createKeyToOldIdx chs beginIdx endIdx = createKeyToOldIdx_loop chs beginIdx endIdx Map.empty"


section \<open>The host tree and its adapter\<close>

text \<open>
  Modelled from the spec: the host tree adapter (\<open>htmldomapi\<close>, the \<open>DOMAPI\<close> capability
  set of section 6) is not part of the sources. Host nodes are numbers; \<open>fresh\<close> is the
  next unused one. A node has a kind, character data, attributes, a parent and an
  ordered list of children. A fragment is an ordinary container here.
\<close>

datatype node_kind = ElementNode string "string option" | TextNode | CommentNode | FragmentNode

record host =
  fresh :: nat
  kind_of :: "nat \<rightharpoonup> node_kind"
  content :: "nat \<Rightarrow> string"
  attrs :: "nat \<Rightarrow> (string \<rightharpoonup> string)"
  parent_of :: "nat \<rightharpoonup> nat"
  kids :: "nat \<Rightarrow> nat list"

datatype error = TypeError | NotFoundError | DocumentFragmentNotSupported

text \<open>Modelled from the spec: allocation of a new, unattached host node.\<close>

definition new_node :: "node_kind \<Rightarrow> string \<Rightarrow> host \<Rightarrow> nat \<times> host" where
  "new_node k c h =
     (fresh h,
      h\<lparr>fresh := Suc (fresh h),
        kind_of := (kind_of h)(fresh h \<mapsto> k),
        content := (content h)(fresh h := c),
        attrs := (attrs h)(fresh h := Map.empty),
        parent_of := (parent_of h)(fresh h := None),
        kids := (kids h)(fresh h := [])\<rparr>)"

text \<open>Modelled from the spec: unlinking a node from the parent it has, if any.\<close>

definition detach :: "nat \<Rightarrow> host \<Rightarrow> host" where
  "detach n h =
     (case parent_of h n of
        None \<Rightarrow> h
      | Some p \<Rightarrow> h\<lparr>parent_of := (parent_of h)(n := None),
                    kids := (kids h)(p := remove1 n (kids h p))\<rparr>)"

fun ins_before :: "nat \<Rightarrow> nat \<Rightarrow> nat list \<Rightarrow> nat list" where
  "ins_before n r [] = [n]"
| "ins_before n r (x # xs) = (if x = r then n # x # xs else x # ins_before n r xs)"

fun next_in :: "nat \<Rightarrow> nat list \<Rightarrow> nat option" where
  "next_in n [] = None"
| "next_in n [x] = None"
| "next_in n (x # y # xs) = (if x = n then Some y else next_in n (y # xs))"

text \<open>Modelled from the spec: \<open>parentNode(node)\<close> and \<open>nextSibling(node)\<close>.\<close>

definition parentNode :: "host \<Rightarrow> nat \<Rightarrow> nat option" where
  "parentNode h n = parent_of h n"

definition nextSibling :: "host \<Rightarrow> nat \<Rightarrow> nat option" where
  "nextSibling h n = (case parent_of h n of None \<Rightarrow> None | Some p \<Rightarrow> next_in n (kids h p))"

text \<open>
  Modelled from the spec: \<open>insertBefore(parent, node, reference|null)\<close>, with the
  behaviour of the standard document tree: the reference must be a child of the parent
  (else \<open>NotFoundError\<close>); a node inserted before itself stays where it is; the node is
  unlinked from its previous parent; a null reference appends.
\<close>

definition insertBefore :: "nat \<Rightarrow> nat \<Rightarrow> nat option \<Rightarrow> host \<Rightarrow> error + host" where
  "insertBefore p n r h =
     (case r of
        None \<Rightarrow>
          (let h1 = detach n h
           in Inr (h1\<lparr>parent_of := (parent_of h1)(n \<mapsto> p), kids := (kids h1)(p := kids h1 p @ [n])\<rparr>))
      | Some r0 \<Rightarrow>
          if parent_of h r0 \<noteq> Some p then Inl NotFoundError
          else
            (let r1 = (if r0 = n then nextSibling h n else Some r0);
                 h1 = detach n h
             in Inr (h1\<lparr>parent_of := (parent_of h1)(n \<mapsto> p),
                        kids := (kids h1)(p := (case r1 of None \<Rightarrow> kids h1 p @ [n]
                                                | Some r2 \<Rightarrow> ins_before n r2 (kids h1 p)))\<rparr>)))"

text \<open>Modelled from the spec: \<open>removeChild(parent, node)\<close>; the node must be a child of the parent.\<close>

definition removeChild :: "nat \<Rightarrow> nat \<Rightarrow> host \<Rightarrow> error + host" where
  "removeChild p n h = (if parent_of h n = Some p then Inr (detach n h) else Inl NotFoundError)"

text \<open>
  Modelled from the spec: \<open>setTextContent(node, text)\<close>. On a container all children are
  unlinked and, for a non-empty text, one new text node becomes the only child; on a
  text or comment node the character data is replaced.
\<close>

definition setTextContent :: "nat \<Rightarrow> string \<Rightarrow> host \<Rightarrow> host" where
  "setTextContent n t h =
     (if kind_of h n = Some TextNode \<or> kind_of h n = Some CommentNode
      then h\<lparr>content := (content h)(n := t)\<rparr>
      else
        (let h1 = h\<lparr>parent_of := (\<lambda>c. if c \<in> set (kids h n) then None else parent_of h c),
                    kids := (kids h)(n := [])\<rparr>
         in if t = [] then h1
            else (case new_node TextNode t h1 of
                    (c, h2) \<Rightarrow> h2\<lparr>parent_of := (parent_of h2)(c \<mapsto> n), kids := (kids h2)(n := [c])\<rparr>)))"

definition setAttribute :: "nat \<Rightarrow> string \<Rightarrow> string \<Rightarrow> host \<Rightarrow> host" where
  "setAttribute n a v h = h\<lparr>attrs := (attrs h)(n := (attrs h n)(a \<mapsto> v))\<rparr>"

section \<open>The engine's state\<close>

text \<open>
  The trace records what the engine does to the outside: every mutating adapter call and
  every hook invocation, in order. Module hooks are named by the position of their
  callback in the \<open>cbs\<close> array of their phase, node hooks by the identity of the vnode.
\<close>

datatype api_call =
    CreateElement string
  | CreateElementNS string string
  | CreateTextNode string
  | CreateComment string
  | CreateDocumentFragment
  | SetAttribute "nat option" string string
  | InsertBefore "nat option" "nat option" "nat option"
  | AppendChild "nat option" "nat option"
  | RemoveChild "nat option" "nat option"
  | SetTextContent "nat option" string

datatype event =
    Api api_call
  | ModulePre nat
  | ModulePost nat
  | ModuleCreate nat ref ref
  | ModuleUpdate nat ref ref
  | ModuleDestroy nat ref
  | ModuleRemove nat ref
  | HookInit ref
  | HookCreate ref ref
  | HookInsert ref
  | HookPrepatch ref ref
  | HookUpdate ref ref
  | HookPostpatch ref ref
  | HookDestroy ref
  | HookRemove ref

text \<open>
  \<open>rmcbs\<close> holds the closures made by \<open>createRmCb\<close>: each captures the host node to
  detach and its own counter \<open>listeners\<close>. \<open>insertedVnodeQueue\<close> is the array of the
  running \<open>patch\<close> call.
\<close>

record state =
  dom :: host
  trace :: "event list"
  rmcbs :: "(nat option \<times> int) list"
  insertedVnodeQueue :: "vnode list"

text \<open>
  A thrown error keeps the state reached when it was thrown: what was mutated before
  stays mutated.
\<close>

type_synonym 'a result = "(error \<times> state) + ('a \<times> state)"

definition emit :: "event list \<Rightarrow> state \<Rightarrow> state" where
  "emit es st = st\<lparr>trace := trace st @ es\<rparr>"

definition state_of :: "'a result \<Rightarrow> state" where
  "state_of r = (case r of Inl (e, st) \<Rightarrow> st | Inr (x, st) \<Rightarrow> st)"

definition error_of :: "'a result \<Rightarrow> error option" where
  "error_of r = (case r of Inl (e, st) \<Rightarrow> Some e | Inr x \<Rightarrow> None)"

text \<open>
  The adapter as the engine calls it. A call on a node reference that is \<open>undefined\<close> or
  \<open>null\<close> where the adapter dereferences it is a \<open>TypeError\<close>.
\<close>

definition api_create :: "api_call \<Rightarrow> node_kind \<Rightarrow> string \<Rightarrow> state \<Rightarrow> nat \<times> state" where
  "api_create c k t st =
     (case new_node k t (dom st) of (n, h) \<Rightarrow> (n, (emit [Api c] st)\<lparr>dom := h\<rparr>))"

definition api_setAttribute :: "nat \<Rightarrow> string \<Rightarrow> string \<Rightarrow> state \<Rightarrow> state" where
  "api_setAttribute n a v st =
     (emit [Api (SetAttribute (Some n) a v)] st)\<lparr>dom := setAttribute n a v (dom st)\<rparr>"

definition api_insertBefore ::
  "nat option \<Rightarrow> nat option \<Rightarrow> nat option \<Rightarrow> state \<Rightarrow> unit result" where
  "api_insertBefore p n r st =
     (let st1 = emit [Api (InsertBefore p n r)] st
      in case (p, n) of
           (Some p0, Some n0) \<Rightarrow>
             (case insertBefore p0 n0 r (dom st1) of
                Inl e \<Rightarrow> Inl (e, st1)
              | Inr h \<Rightarrow> Inr ((), st1\<lparr>dom := h\<rparr>))
         | _ \<Rightarrow> Inl (TypeError, st1))"

definition api_appendChild :: "nat option \<Rightarrow> nat option \<Rightarrow> state \<Rightarrow> unit result" where
  "api_appendChild p n st =
     (let st1 = emit [Api (AppendChild p n)] st
      in case (p, n) of
           (Some p0, Some n0) \<Rightarrow>
             (case insertBefore p0 n0 None (dom st1) of
                Inl e \<Rightarrow> Inl (e, st1)
              | Inr h \<Rightarrow> Inr ((), st1\<lparr>dom := h\<rparr>))
         | _ \<Rightarrow> Inl (TypeError, st1))"

definition api_removeChild :: "nat option \<Rightarrow> nat option \<Rightarrow> state \<Rightarrow> unit result" where
  "api_removeChild p n st =
     (let st1 = emit [Api (RemoveChild p n)] st
      in case (p, n) of
           (Some p0, Some n0) \<Rightarrow>
             (case removeChild p0 n0 (dom st1) of
                Inl e \<Rightarrow> Inl (e, st1)
              | Inr h \<Rightarrow> Inr ((), st1\<lparr>dom := h\<rparr>))
         | _ \<Rightarrow> Inl (TypeError, st1))"

definition api_setTextContent :: "nat option \<Rightarrow> string \<Rightarrow> state \<Rightarrow> unit result" where
  "api_setTextContent n t st =
     (let st1 = emit [Api (SetTextContent n t)] st
      in case n of
           Some n0 \<Rightarrow> Inr ((), st1\<lparr>dom := setTextContent n0 t (dom st1)\<rparr>)
         | None \<Rightarrow> Inl (TypeError, st1))"

definition api_parentNode :: "nat option \<Rightarrow> state \<Rightarrow> (nat option) result" where
  "api_parentNode n st =
     (case n of Some n0 \<Rightarrow> Inr (parentNode (dom st) n0, st) | None \<Rightarrow> Inl (TypeError, st))"

definition api_nextSibling :: "nat option \<Rightarrow> state \<Rightarrow> (nat option) result" where
  "api_nextSibling n st =
     (case n of Some n0 \<Rightarrow> Inr (nextSibling (dom st) n0, st) | None \<Rightarrow> Inl (TypeError, st))"


section \<open>Engine construction\<close>

text \<open>
  A module supplies any of the six module hooks. Module callbacks are caller code like
  the node hooks: present or absent, and for \<open>remove\<close> the number of times the callback
  calls \<open>rm\<close> before it returns.
\<close>

record module_hooks =
  m_create :: bool
  m_update :: bool
  m_remove :: "nat option"
  m_destroy :: bool
  m_pre :: bool
  m_post :: bool

text \<open>
  \<open>cbs\<close>: for each phase the callbacks collected from the modules, in module order. For
  the phases whose callbacks the engine only calls, the array is given by its length.
\<close>

record cbs =
  cbs_create :: nat
  cbs_update :: nat
  cbs_remove :: "nat list"
  cbs_destroy :: nat
  cbs_pre :: nat
  cbs_post :: nat

record engine =
  engine_cbs :: cbs
  fragments :: bool
  createDocumentFragment :: bool

definition init :: "module_hooks list \<Rightarrow> bool \<Rightarrow> bool \<Rightarrow> engine" where
  "init modules adapterHasFragments optFragments =
     \<lparr>engine_cbs =
        \<lparr>cbs_create = length (filter m_create modules),
         cbs_update = length (filter m_update modules),
         cbs_remove = concat (map (\<lambda>m. case m_remove m of None \<Rightarrow> [] | Some k \<Rightarrow> [k]) modules),
         cbs_destroy = length (filter m_destroy modules),
         cbs_pre = length (filter m_pre modules),
         cbs_post = length (filter m_post modules)\<rparr>,
      fragments = optFragments,
      createDocumentFragment = adapterHasFragments\<rparr>"

section \<open>The removal callback\<close>

definition createRmCb :: "nat option \<Rightarrow> int \<Rightarrow> state \<Rightarrow> nat \<times> state" where
  "createRmCb childElm listeners st =
     (length (rmcbs st), st\<lparr>rmcbs := rmcbs st @ [(childElm, listeners)]\<rparr>)"

definition rmCb :: "nat \<Rightarrow> state \<Rightarrow> unit result" where
  "rmCb c st =
     (if c < length (rmcbs st) then
        (case rmcbs st ! c of
           (childElm, listeners) \<Rightarrow>
             (let st1 = st\<lparr>rmcbs := (rmcbs st)[c := (childElm, listeners - 1)]\<rparr>
              in if listeners - 1 = 0 then
                   (case api_parentNode childElm st1 of
                      Inl e \<Rightarrow> Inl e
                    | Inr (parent, st2) \<Rightarrow> api_removeChild parent childElm st2)
                 else Inr ((), st1)))
      else Inr ((), st))"

text \<open>A hook that calls \<open>rm\<close> \<open>k\<close> times in a row; an error of a call leaves the hook.\<close>

fun rm_times :: "nat \<Rightarrow> nat \<Rightarrow> state \<Rightarrow> unit result" where
  "rm_times 0 c st = Inr ((), st)"
| "rm_times (Suc k) c st =
     (case rmCb c st of Inl e \<Rightarrow> Inl e | Inr (u, st1) \<Rightarrow> rm_times k c st1)"

text \<open>
  Calls of \<open>rm\<close> made later, after the pass: each call is on its own, so an error of one
  does not stop the next.
\<close>

fun rm_later :: "nat \<Rightarrow> nat \<Rightarrow> state \<Rightarrow> state" where
  "rm_later 0 c st = st"
| "rm_later (Suc k) c st = rm_later k c (state_of (rmCb c st))"

section \<open>Building elements\<close>

fun index_from :: "char \<Rightarrow> string \<Rightarrow> nat \<Rightarrow> int" where
  "index_from c [] i = - 1"
| "index_from c (x # xs) i = (if x = c then int i else index_from c xs (Suc i))"

text \<open>\<open>s.indexOf(c, from)\<close>: a negative \<open>from\<close> counts as 0.\<close>

definition indexOf :: "char \<Rightarrow> int \<Rightarrow> string \<Rightarrow> int" where
  "indexOf c from s = index_from c (drop (nat from) s) (nat from)"

text \<open>\<open>s.slice(a, b)\<close> for \<open>0 \<le> a\<close> and \<open>0 \<le> b\<close>.\<close>

definition slice :: "string \<Rightarrow> int \<Rightarrow> int \<Rightarrow> string" where
  "slice s a b = take (nat (b - a)) (drop (nat a) s)"

definition sel_hashIdx :: "string \<Rightarrow> int" where
  "sel_hashIdx s = indexOf (CHR ''#'') 0 s"

definition sel_dotIdx :: "string \<Rightarrow> int" where
  "sel_dotIdx s = indexOf (CHR ''.'') (sel_hashIdx s) s"

definition sel_hash :: "string \<Rightarrow> int" where
  "sel_hash s = (if sel_hashIdx s > 0 then sel_hashIdx s else int (length s))"

definition sel_dot :: "string \<Rightarrow> int" where
  "sel_dot s = (if sel_dotIdx s > 0 then sel_dotIdx s else int (length s))"

definition sel_tag :: "string \<Rightarrow> string" where
  "sel_tag s =
     (if sel_hashIdx s \<noteq> - 1 \<or> sel_dotIdx s \<noteq> - 1
      then slice s 0 (min (sel_hash s) (sel_dot s)) else s)"

definition set_sel_attrs :: "string \<Rightarrow> nat \<Rightarrow> state \<Rightarrow> state" where
  "set_sel_attrs s n st =
     (let st1 = (if sel_hash s < sel_dot s
                 then api_setAttribute n ''id'' (slice s (sel_hash s + 1) (sel_dot s)) st
                 else st)
      in if sel_dotIdx s > 0
         then api_setAttribute n ''class''
                (map (\<lambda>c. if c = CHR ''.'' then CHR '' '' else c)
                   (slice s (sel_dot s + 1) (int (length s)))) st1
         else st1)"

definition data_ns :: "vdata option \<Rightarrow> string option" where
  "data_ns d = (case d of None \<Rightarrow> None | Some d0 \<Rightarrow> ns d0)"

definition call_init :: "ref \<Rightarrow> vdata option \<Rightarrow> state \<Rightarrow> state" where
  "call_init i d st =
     (case d of
        None \<Rightarrow> st
      | Some d0 \<Rightarrow>
          (case hook d0 of
             None \<Rightarrow> st
           | Some h \<Rightarrow> if on_init h then emit [HookInit i] st else st))"

definition module_create_hooks :: "engine \<Rightarrow> ref \<Rightarrow> state \<Rightarrow> state" where
  "module_create_hooks eng i st =
     emit (map (\<lambda>j. ModuleCreate j Synthetic i) [0..<cbs_create (engine_cbs eng)]) st"

text \<open>
  The end of the element branch: \<open>vnode.data!.hook\<close> reads \<open>hook\<close> of \<open>vnode.data\<close> with
  no test, then the node's own \<open>create\<close> runs and the vnode is queued for \<open>insert\<close>.
\<close>

definition own_create_hooks :: "vnode \<Rightarrow> state \<Rightarrow> unit result" where
  "own_create_hooks v st =
     (case data v of
        None \<Rightarrow> Inl (TypeError, st)
      | Some d0 \<Rightarrow>
          (case hook d0 of
             None \<Rightarrow> Inr ((), st)
           | Some h \<Rightarrow>
               (let st1 = (if on_create h then emit [HookCreate Synthetic (vid v)] st else st)
                in if on_insert h
                   then Inr ((), st1\<lparr>insertedVnodeQueue := insertedVnodeQueue st1 @ [v]\<rparr>)
                   else Inr ((), st1))))"

function (sequential) createElm :: "engine \<Rightarrow> vnode \<Rightarrow> state \<Rightarrow> vnode result"
  and createElm_children ::
    "engine \<Rightarrow> nat \<Rightarrow> vnode option list \<Rightarrow> state \<Rightarrow> (vnode option list) result" where
  "createElm eng (VNode i s k d ch t e) st =
     (let st0 = call_init i d st
      in if s = Some ''!'' then
           (let t1 = (case t of None \<Rightarrow> [] | Some x \<Rightarrow> x)
            in case api_create (CreateComment t1) CommentNode t1 st0 of
                 (n, st1) \<Rightarrow> Inr (VNode i s k d ch (Some t1) (Some n), st1))
         else
           (case s of
              Some sel0 \<Rightarrow>
                (case (case data_ns d of
                         Some nsp \<Rightarrow> api_create (CreateElementNS nsp (sel_tag sel0))
                                       (ElementNode (sel_tag sel0) (Some nsp)) [] st0
                       | None \<Rightarrow> api_create (CreateElement (sel_tag sel0))
                                   (ElementNode (sel_tag sel0) None) [] st0) of
                   (n, st1) \<Rightarrow>
                     (let st2 = module_create_hooks eng i (set_sel_attrs sel0 n st1)
                      in case (case ch of
                                 Some (a, cs) \<Rightarrow>
                                   (case createElm_children eng n cs st2 of
                                      Inl x \<Rightarrow> Inl x
                                    | Inr (cs1, st3) \<Rightarrow> Inr (Some (a, cs1), st3))
                               | None \<Rightarrow>
                                   (case t of
                                      Some t0 \<Rightarrow>
                                        (case api_create (CreateTextNode t0) TextNode t0 st2 of
                                           (c, st3) \<Rightarrow>
                                             (case api_appendChild (Some n) (Some c) st3 of
                                                Inl x \<Rightarrow> Inl x
                                              | Inr (u, st4) \<Rightarrow> Inr (None, st4)))
                                    | None \<Rightarrow> Inr (None, st2))) of
                           Inl x \<Rightarrow> Inl x
                         | Inr (ch1, st5) \<Rightarrow>
                             (case own_create_hooks (VNode i s k d ch1 t (Some n)) st5 of
                                Inl x \<Rightarrow> Inl x
                              | Inr (u, st6) \<Rightarrow> Inr (VNode i s k d ch1 t (Some n), st6))))
            | None \<Rightarrow>
                (case (if fragments eng then ch else None) of
                   Some (a, cs) \<Rightarrow>
                     if createDocumentFragment eng then
                       (case api_create CreateDocumentFragment FragmentNode [] st0 of
                          (n, st1) \<Rightarrow>
                            (case createElm_children eng n cs (module_create_hooks eng i st1) of
                               Inl x \<Rightarrow> Inl x
                             | Inr (cs1, st3) \<Rightarrow>
                                 Inr (VNode i s k d (Some (a, cs1)) t (Some n), st3)))
                     else Inl (DocumentFragmentNotSupported, st0)
                 | None \<Rightarrow>
                     (let t1 = (case t of None \<Rightarrow> ''undefined'' | Some x \<Rightarrow> x)
                      in case api_create (CreateTextNode t1) TextNode t1 st0 of
                           (n, st1) \<Rightarrow> Inr (VNode i s k d ch t (Some n), st1)))))"
| "createElm_children eng n [] st = Inr ([], st)"
| "createElm_children eng n (c # cs) st =
     (case c of
        None \<Rightarrow>
          (case createElm_children eng n cs st of
             Inl x \<Rightarrow> Inl x
           | Inr (cs1, st1) \<Rightarrow> Inr (None # cs1, st1))
      | Some v \<Rightarrow>
          (case createElm eng v st of
             Inl x \<Rightarrow> Inl x
           | Inr (v1, st1) \<Rightarrow>
               (case api_appendChild (Some n) (elm v1) st1 of
                  Inl x \<Rightarrow> Inl x
                | Inr (u, st2) \<Rightarrow>
                    (case createElm_children eng n cs st2 of
                       Inl x \<Rightarrow> Inl x
                     | Inr (cs1, st3) \<Rightarrow> Inr (Some v1 # cs1, st3)))))"
  by pat_completeness auto
termination
  by (relation "measure (\<lambda>x. case x of Inl (eng, v, st) \<Rightarrow> size v
                                  | Inr (eng, n, cs, st) \<Rightarrow> size_list (size_option size) cs)")
     (auto split: if_splits)


section \<open>Adding and removing runs of children\<close>

function addVnodes ::
  "engine \<Rightarrow> nat option \<Rightarrow> nat option \<Rightarrow> vnode option list \<Rightarrow> int \<Rightarrow> int \<Rightarrow> state
     \<Rightarrow> (vnode option list) result" where
  "addVnodes eng parentElm beforeElm vnodes startIdx endIdx st =
     (if startIdx \<le> endIdx then
        (case slot vnodes startIdx of
           None \<Rightarrow> addVnodes eng parentElm beforeElm vnodes (startIdx + 1) endIdx st
         | Some ch \<Rightarrow>
             (case createElm eng ch st of
                Inl x \<Rightarrow> Inl x
              | Inr (ch1, st1) \<Rightarrow>
                  (case api_insertBefore parentElm (elm ch1) beforeElm st1 of
                     Inl x \<Rightarrow> Inl x
                   | Inr (u, st2) \<Rightarrow>
                       addVnodes eng parentElm beforeElm (vnodes[nat startIdx := Some ch1])
                         (startIdx + 1) endIdx st2)))
      else Inr (vnodes, st))"
  by pat_completeness auto
termination
  by (relation "measure (\<lambda>(eng, parentElm, beforeElm, vnodes, startIdx, endIdx, st).
                  nat (endIdx + 1 - startIdx))") auto

definition own_destroy_hook :: "vnode \<Rightarrow> state \<Rightarrow> state" where
  "own_destroy_hook v st =
     (case data_hook v of
        None \<Rightarrow> st
      | Some h \<Rightarrow> if on_destroy h then emit [HookDestroy (vid v)] st else st)"

definition module_destroy_hooks :: "engine \<Rightarrow> ref \<Rightarrow> state \<Rightarrow> state" where
  "module_destroy_hooks eng i st =
     emit (map (\<lambda>j. ModuleDestroy j i) [0..<cbs_destroy (engine_cbs eng)]) st"

function (sequential) invokeDestroyHook :: "engine \<Rightarrow> vnode \<Rightarrow> state \<Rightarrow> state"
  and invokeDestroyHook_children :: "engine \<Rightarrow> vnode option list \<Rightarrow> state \<Rightarrow> state" where
  "invokeDestroyHook eng (VNode i s k d ch t e) st =
     (case d of
        None \<Rightarrow> st
      | Some d0 \<Rightarrow>
          (let st1 = module_destroy_hooks eng i (own_destroy_hook (VNode i s k d ch t e) st)
           in case ch of
                None \<Rightarrow> st1
              | Some (a, cs) \<Rightarrow> invokeDestroyHook_children eng cs st1))"
| "invokeDestroyHook_children eng [] st = st"
| "invokeDestroyHook_children eng (c # cs) st =
     (case c of
        None \<Rightarrow> invokeDestroyHook_children eng cs st
      | Some child \<Rightarrow> invokeDestroyHook_children eng cs (invokeDestroyHook eng child st))"
  by pat_completeness auto
termination
  by (relation "measure (\<lambda>x. case x of Inl (eng, v, st) \<Rightarrow> size v
                                  | Inr (eng, cs, st) \<Rightarrow> size_list (size_option size) cs)")
     auto

text \<open>The loop over \<open>cbs.remove\<close>: callback \<open>j\<close> is called with the vnode and \<open>rm\<close>.\<close>

fun module_remove_hooks :: "nat \<Rightarrow> ref \<Rightarrow> nat \<Rightarrow> nat list \<Rightarrow> state \<Rightarrow> unit result" where
  "module_remove_hooks rm i j [] st = Inr ((), st)"
| "module_remove_hooks rm i j (k # ks) st =
     (case rm_times k rm (emit [ModuleRemove j i] st) of
        Inl x \<Rightarrow> Inl x
      | Inr (u, st1) \<Rightarrow> module_remove_hooks rm i (Suc j) ks st1)"

definition hook_remove_of :: "vnode \<Rightarrow> nat option" where
  "hook_remove_of v = (case data_hook v of None \<Rightarrow> None | Some h \<Rightarrow> on_remove h)"

text \<open>The body of the loop of \<open>removeVnodes\<close> for one non-null child.\<close>

definition removeVnode :: "engine \<Rightarrow> nat option \<Rightarrow> vnode \<Rightarrow> state \<Rightarrow> unit result" where
  "removeVnode eng parentElm ch st =
     (if sel ch \<noteq> None then
        (let st1 = invokeDestroyHook eng ch st;
             listeners = int (length (cbs_remove (engine_cbs eng))) + 1
         in case createRmCb (elm ch) listeners st1 of
              (rm, st2) \<Rightarrow>
                (case module_remove_hooks rm (vid ch) 0 (cbs_remove (engine_cbs eng)) st2 of
                   Inl x \<Rightarrow> Inl x
                 | Inr (u, st3) \<Rightarrow>
                     (case hook_remove_of ch of
                        Some k \<Rightarrow> rm_times k rm (emit [HookRemove (vid ch)] st3)
                      | None \<Rightarrow> rmCb rm st3)))
      else api_removeChild parentElm (elm ch) st)"

function removeVnodes ::
  "engine \<Rightarrow> nat option \<Rightarrow> vnode option list \<Rightarrow> int \<Rightarrow> int \<Rightarrow> state \<Rightarrow> unit result" where
  "removeVnodes eng parentElm vnodes startIdx endIdx st =
     (if startIdx \<le> endIdx then
        (case slot vnodes startIdx of
           None \<Rightarrow> removeVnodes eng parentElm vnodes (startIdx + 1) endIdx st
         | Some ch \<Rightarrow>
             (case removeVnode eng parentElm ch st of
                Inl x \<Rightarrow> Inl x
              | Inr (u, st1) \<Rightarrow> removeVnodes eng parentElm vnodes (startIdx + 1) endIdx st1))
      else Inr ((), st))"
  by pat_completeness auto
termination
  by (relation "measure (\<lambda>(eng, parentElm, vnodes, startIdx, endIdx, st).
                  nat (endIdx + 1 - startIdx))") auto


section \<open>Patching a node and its children\<close>

fun set_elm :: "nat option \<Rightarrow> vnode \<Rightarrow> vnode" where
  "set_elm e1 (VNode i s k d ch t e) = VNode i s k d ch t e1"

fun set_children :: "(ref \<times> vnode option list) option \<Rightarrow> vnode \<Rightarrow> vnode" where
  "set_children ch1 (VNode i s k d ch t e) = VNode i s k d ch1 t e"

text \<open>\<open>vnode.data ??= {}\<close>\<close>

fun default_data :: "vnode \<Rightarrow> vnode" where
  "default_data (VNode i s k d ch t e) =
     VNode i s k (case d of None \<Rightarrow> Some emptyData | Some d0 \<Rightarrow> Some d0) ch t e"

definition prepatch_hook :: "vnode \<Rightarrow> vnode \<Rightarrow> state \<Rightarrow> state" where
  "prepatch_hook oldVnode vnode st =
     (case data_hook vnode of
        None \<Rightarrow> st
      | Some h \<Rightarrow>
          if on_prepatch h then emit [HookPrepatch (vid oldVnode) (vid vnode)] st else st)"

definition postpatch_hook :: "vnode \<Rightarrow> vnode \<Rightarrow> state \<Rightarrow> state" where
  "postpatch_hook oldVnode vnode st =
     (case data_hook vnode of
        None \<Rightarrow> st
      | Some h \<Rightarrow>
          if on_postpatch h then emit [HookPostpatch (vid oldVnode) (vid vnode)] st else st)"

definition update_needed :: "vnode \<Rightarrow> vnode \<Rightarrow> bool" where
  "update_needed oldVnode vnode =
     (data vnode \<noteq> None \<or> (vtext vnode \<noteq> None \<and> vtext vnode \<noteq> vtext oldVnode))"

text \<open>The \<open>update\<close> hooks: every callback of \<open>cbs.update\<close>, then the node's own.\<close>

definition update_hooks :: "engine \<Rightarrow> vnode \<Rightarrow> vnode \<Rightarrow> state \<Rightarrow> state" where
  "update_hooks eng oldVnode vnode st =
     (let st1 = emit (map (\<lambda>j. ModuleUpdate j (vid oldVnode) (vid vnode))
                        [0..<cbs_update (engine_cbs eng)]) st
      in case data_hook vnode of
           None \<Rightarrow> st1
         | Some h \<Rightarrow>
             if on_update h then emit [HookUpdate (vid oldVnode) (vid vnode)] st1 else st1)"

text \<open>
  The branches of \<open>patchVnode\<close>'s content reconciliation that do not enter
  \<open>updateChildren\<close>. The result is the old and the new vnode as they are afterwards.
\<close>

definition patch_content :: "engine \<Rightarrow> vnode \<Rightarrow> vnode \<Rightarrow> state \<Rightarrow> (vnode \<times> vnode) result" where
  "patch_content eng oldVnode vnode st =
     (case vtext vnode of
        None \<Rightarrow>
          (case (children oldVnode, children vnode) of
             (Some (oa, ocs), Some (a, cs)) \<Rightarrow> Inr ((oldVnode, vnode), st)
           | (None, Some (a, cs)) \<Rightarrow>
               (case (if vtext oldVnode \<noteq> None then api_setTextContent (elm vnode) [] st
                      else Inr ((), st)) of
                  Inl x \<Rightarrow> Inl x
                | Inr (u, st1) \<Rightarrow>
                    (case addVnodes eng (elm vnode) None cs 0 (int (length cs) - 1) st1 of
                       Inl x \<Rightarrow> Inl x
                     | Inr (cs1, st2) \<Rightarrow>
                         Inr ((oldVnode, set_children (Some (a, cs1)) vnode), st2)))
           | (Some (oa, ocs), None) \<Rightarrow>
               (case removeVnodes eng (elm vnode) ocs 0 (int (length ocs) - 1) st of
                  Inl x \<Rightarrow> Inl x
                | Inr (u, st1) \<Rightarrow> Inr ((oldVnode, vnode), st1))
           | (None, None) \<Rightarrow>
               (if vtext oldVnode \<noteq> None then
                  (case api_setTextContent (elm vnode) [] st of
                     Inl x \<Rightarrow> Inl x
                   | Inr (u, st1) \<Rightarrow> Inr ((oldVnode, vnode), st1))
                else Inr ((oldVnode, vnode), st)))
      | Some t \<Rightarrow>
          if vtext oldVnode \<noteq> Some t then
            (case (case children oldVnode of
                     Some (oa, ocs) \<Rightarrow> removeVnodes eng (elm vnode) ocs 0 (int (length ocs) - 1) st
                   | None \<Rightarrow> Inr ((), st)) of
               Inl x \<Rightarrow> Inl x
             | Inr (u, st1) \<Rightarrow>
                 (case api_setTextContent (elm vnode) t st1 of
                    Inl x \<Rightarrow> Inl x
                  | Inr (u, st2) \<Rightarrow> Inr ((oldVnode, vnode), st2)))
          else Inr ((oldVnode, vnode), st))"

text \<open>
  The variables of the loop of \<open>updateChildren\<close>. \<open>oldStartVnode\<close> and \<open>oldEndVnode\<close> are
  kept as the source keeps them: read when the index moves, so they still hold the vnode
  after its slot of \<open>oldCh\<close> has been set to \<open>undefined\<close>. \<open>newStartVnode\<close> and
  \<open>newEndVnode\<close> are read from the new children as they were passed in (\<open>ch0\<close> below): a
  slot of \<open>newCh\<close> is written only when its index is left, so inside the window the two
  agree. \<open>newCh\<close> is the array as the loop has written it.
\<close>

record uc_vars =
  oldStartIdx :: int
  newStartIdx :: int
  oldEndIdx :: int
  newEndIdx :: int
  oldStartVnode :: "vnode option"
  oldEndVnode :: "vnode option"
  oldKeyToIdx :: "(string \<rightharpoonup> int) option"
  oldCh :: "vnode option list"
  newCh :: "vnode option list"

definition uc_init :: "vnode option list \<Rightarrow> vnode option list \<Rightarrow> uc_vars" where
  "uc_init oldCh0 newCh0 =
     \<lparr>oldStartIdx = 0, newStartIdx = 0,
      oldEndIdx = int (length oldCh0) - 1, newEndIdx = int (length newCh0) - 1,
      oldStartVnode = slot oldCh0 0, oldEndVnode = slot oldCh0 (int (length oldCh0) - 1),
      oldKeyToIdx = None, oldCh = oldCh0, newCh = newCh0\<rparr>"

text \<open>\<open>oldStartVnode = oldCh[++oldStartIdx]\<close> and its three siblings.\<close>

definition inc_oldStart :: "uc_vars \<Rightarrow> uc_vars" where
  "inc_oldStart v = v\<lparr>oldStartIdx := oldStartIdx v + 1,
                       oldStartVnode := slot (oldCh v) (oldStartIdx v + 1)\<rparr>"

definition dec_oldEnd :: "uc_vars \<Rightarrow> uc_vars" where
  "dec_oldEnd v = v\<lparr>oldEndIdx := oldEndIdx v - 1,
                     oldEndVnode := slot (oldCh v) (oldEndIdx v - 1)\<rparr>"

definition inc_newStart :: "uc_vars \<Rightarrow> uc_vars" where
  "inc_newStart v = v\<lparr>newStartIdx := newStartIdx v + 1\<rparr>"

definition dec_newEnd :: "uc_vars \<Rightarrow> uc_vars" where
  "dec_newEnd v = v\<lparr>newEndIdx := newEndIdx v - 1\<rparr>"

text \<open>
  A patched old vnode is the object that sits in slot \<open>i\<close> of \<open>oldCh\<close> (unless the slot was
  cleared) and in the variables whose index is \<open>i\<close>: all of them see what \<open>patchVnode\<close>
  did to it. A patched or built new vnode sits in its slot of \<open>newCh\<close>.
\<close>

definition put_old :: "int \<Rightarrow> vnode \<Rightarrow> uc_vars \<Rightarrow> uc_vars" where
  "put_old i ov v =
     v\<lparr>oldCh := (if slot (oldCh v) i \<noteq> None then (oldCh v)[nat i := Some ov] else oldCh v),
       oldStartVnode := (if oldStartIdx v = i \<and> oldStartVnode v \<noteq> None then Some ov
                         else oldStartVnode v),
       oldEndVnode := (if oldEndIdx v = i \<and> oldEndVnode v \<noteq> None then Some ov
                       else oldEndVnode v)\<rparr>"

definition put_new :: "int \<Rightarrow> vnode \<Rightarrow> uc_vars \<Rightarrow> uc_vars" where
  "put_new i nv v = v\<lparr>newCh := (newCh v)[nat i := Some nv]\<rparr>"

text \<open>\<open>oldCh[idxInOld] = undefined\<close>\<close>

definition clear_old :: "int \<Rightarrow> uc_vars \<Rightarrow> uc_vars" where
  "clear_old i v = v\<lparr>oldCh := (oldCh v)[nat i := None]\<rparr>"

text \<open>A new element: built and inserted before the live node of \<open>oldStartVnode\<close>.\<close>

definition insert_new ::
  "engine \<Rightarrow> nat option \<Rightarrow> vnode \<Rightarrow> vnode \<Rightarrow> uc_vars \<Rightarrow> state \<Rightarrow> uc_vars result" where
  "insert_new eng parentElm newStartVnode0 oldStartVnode0 v st =
     (case createElm eng newStartVnode0 st of
        Inl x \<Rightarrow> Inl x
      | Inr (n1, st1) \<Rightarrow>
          (case api_insertBefore parentElm (elm n1) (elm oldStartVnode0) st1 of
             Inl x \<Rightarrow> Inl x
           | Inr (u, st2) \<Rightarrow> Inr (put_new (newStartIdx v) n1 v, st2)))"

text \<open>What follows the loop: the rest of the new children is added, the rest of the old removed.\<close>

definition uc_finish ::
  "engine \<Rightarrow> nat option \<Rightarrow> uc_vars \<Rightarrow> state \<Rightarrow> (vnode option list \<times> vnode option list) result" where
  "uc_finish eng parentElm v st =
     (case (if newStartIdx v \<le> newEndIdx v then
              addVnodes eng parentElm
                (case slot (newCh v) (newEndIdx v + 1) of None \<Rightarrow> None | Some x \<Rightarrow> elm x)
                (newCh v) (newStartIdx v) (newEndIdx v) st
            else Inr (newCh v, st)) of
        Inl x \<Rightarrow> Inl x
      | Inr (newCh1, st1) \<Rightarrow>
          (case (if oldStartIdx v \<le> oldEndIdx v then
                   removeVnodes eng parentElm (oldCh v) (oldStartIdx v) (oldEndIdx v) st1
                 else Inr ((), st1)) of
             Inl x \<Rightarrow> Inl x
           | Inr (u, st2) \<Rightarrow> Inr ((oldCh v, newCh1), st2)))"

text \<open>
  The property name of \<open>oldKeyToIdx[newStartVnode.key as string]\<close>: a missing key reads
  the property \<open>"undefined"\<close>.
\<close>

definition key_name :: "vnode \<Rightarrow> string" where
  "key_name v = (case key v of None \<Rightarrow> ''undefined'' | Some k \<Rightarrow> prop_name k)"

text \<open>
  The map is built on the first fallback and kept. \<open>idxInOld\<close> is what the read
  \<open>obj_get\<close> of it gives. When that is an inherited value, \<open>isUndef(idxInOld)\<close> is false,
  \<open>oldCh[idxInOld]\<close> is \<open>undefined\<close> (no array has a property of that name) and
  \<open>elmToMove.sel\<close> throws.
\<close>

definition the_key_map :: "uc_vars \<Rightarrow> (string \<rightharpoonup> int)" where
  "the_key_map v =
     (case oldKeyToIdx v of
        None \<Rightarrow> createKeyToOldIdx (oldCh v) (oldStartIdx v) (oldEndIdx v)
      | Some m \<Rightarrow> m)"


lemma size_slot [termination_simp]:
  "slot xs i = Some x \<Longrightarrow> size x < size_list (size_option size) xs"
proof -
  assume a: "slot xs i = Some x"
  then have "Some x \<in> set xs"
    by (auto simp: slot_def split: if_splits) (metis nth_mem nat_less_iff nat_int)
  then have "size_option size (Some x) \<le> size_list (size_option size) xs"
    by (simp add: size_list_estimation')
  then show ?thesis by simp
qed

lemma size_children [termination_simp]:
  "children v = Some (a, cs) \<Longrightarrow> size_list (size_option size) cs < size v"
  by (cases v) simp

lemma insert_new_idx:
  "insert_new eng p n ov v st = Inr (v2, st1) \<Longrightarrow>
     oldStartIdx v2 = oldStartIdx v \<and> oldEndIdx v2 = oldEndIdx v \<and>
     newStartIdx v2 = newStartIdx v \<and> newEndIdx v2 = newEndIdx v"
  by (auto simp: insert_new_def put_new_def split: sum.splits prod.splits)

function patchVnode :: "engine \<Rightarrow> vnode \<Rightarrow> vnode \<Rightarrow> state \<Rightarrow> (vnode \<times> vnode) result"
  and updateChildren ::
    "engine \<Rightarrow> nat option \<Rightarrow> vnode option list \<Rightarrow> vnode option list \<Rightarrow> state
       \<Rightarrow> (vnode option list \<times> vnode option list) result"
  and updateChildren_loop ::
    "engine \<Rightarrow> nat option \<Rightarrow> vnode option list \<Rightarrow> uc_vars \<Rightarrow> state
       \<Rightarrow> (vnode option list \<times> vnode option list) result" where
  "patchVnode eng oldVnode vnode st =
     (let st1 = prepatch_hook oldVnode vnode st;
          vnode1 = set_elm (elm oldVnode) vnode
      in if vid oldVnode = vid vnode then Inr ((vnode1, vnode1), st1)
         else
           (let upd = update_needed oldVnode vnode;
                vnode2 = (if upd then default_data vnode1 else vnode1);
                old2 = (if upd then default_data oldVnode else oldVnode);
                st2 = (if upd then update_hooks eng old2 vnode2 st1 else st1)
            in case (case (vtext vnode, children oldVnode, children vnode) of
                       (None, Some (oa, ocs), Some (a, cs)) \<Rightarrow>
                         if oa \<noteq> a then
                           (case updateChildren eng (elm vnode2) ocs cs st2 of
                              Inl x \<Rightarrow> Inl x
                            | Inr ((ocs1, cs1), st3) \<Rightarrow>
                                Inr ((set_children (Some (oa, ocs1)) old2,
                                      set_children (Some (a, cs1)) vnode2), st3))
                         else Inr ((old2, vnode2), st2)
                     | _ \<Rightarrow> patch_content eng old2 vnode2 st2) of
                 Inl x \<Rightarrow> Inl x
               | Inr ((old3, vnode3), st4) \<Rightarrow>
                   Inr ((old3, vnode3), postpatch_hook oldVnode vnode st4)))"
| "updateChildren eng parentElm oldCh0 newCh0 st =
     updateChildren_loop eng parentElm newCh0 (uc_init oldCh0 newCh0) st"
| "updateChildren_loop eng parentElm ch0 v st =
     (if oldStartIdx v \<le> oldEndIdx v \<and> newStartIdx v \<le> newEndIdx v then
        (case oldStartVnode v of
           None \<Rightarrow> updateChildren_loop eng parentElm ch0 (inc_oldStart v) st
         | Some oldStartVnode0 \<Rightarrow>
        (case oldEndVnode v of
           None \<Rightarrow> updateChildren_loop eng parentElm ch0 (dec_oldEnd v) st
         | Some oldEndVnode0 \<Rightarrow>
        (case slot ch0 (newStartIdx v) of
           None \<Rightarrow> updateChildren_loop eng parentElm ch0 (inc_newStart v) st
         | Some newStartVnode0 \<Rightarrow>
        (case slot ch0 (newEndIdx v) of
           None \<Rightarrow> updateChildren_loop eng parentElm ch0 (dec_newEnd v) st
         | Some newEndVnode0 \<Rightarrow>
             if sameVnode oldStartVnode0 newStartVnode0 then
               (case patchVnode eng oldStartVnode0 newStartVnode0 st of
                  Inl x \<Rightarrow> Inl x
                | Inr ((o1, n1), st1) \<Rightarrow>
                    updateChildren_loop eng parentElm ch0
                      (inc_newStart (inc_oldStart
                         (put_old (oldStartIdx v) o1 (put_new (newStartIdx v) n1 v)))) st1)
             else if sameVnode oldEndVnode0 newEndVnode0 then
               (case patchVnode eng oldEndVnode0 newEndVnode0 st of
                  Inl x \<Rightarrow> Inl x
                | Inr ((o1, n1), st1) \<Rightarrow>
                    updateChildren_loop eng parentElm ch0
                      (dec_newEnd (dec_oldEnd
                         (put_old (oldEndIdx v) o1 (put_new (newEndIdx v) n1 v)))) st1)
             else if sameVnode oldStartVnode0 newEndVnode0 then
               (case patchVnode eng oldStartVnode0 newEndVnode0 st of
                  Inl x \<Rightarrow> Inl x
                | Inr ((o1, n1), st1) \<Rightarrow>
                    (case api_nextSibling (elm oldEndVnode0) st1 of
                       Inl x \<Rightarrow> Inl x
                     | Inr (sib, st2) \<Rightarrow>
                         (case api_insertBefore parentElm (elm oldStartVnode0) sib st2 of
                            Inl x \<Rightarrow> Inl x
                          | Inr (u, st3) \<Rightarrow>
                              updateChildren_loop eng parentElm ch0
                                (dec_newEnd (inc_oldStart
                                   (put_old (oldStartIdx v) o1 (put_new (newEndIdx v) n1 v))))
                                st3)))
             else if sameVnode oldEndVnode0 newStartVnode0 then
               (case patchVnode eng oldEndVnode0 newStartVnode0 st of
                  Inl x \<Rightarrow> Inl x
                | Inr ((o1, n1), st1) \<Rightarrow>
                    (case api_insertBefore parentElm (elm oldEndVnode0) (elm oldStartVnode0) st1 of
                       Inl x \<Rightarrow> Inl x
                     | Inr (u, st2) \<Rightarrow>
                         updateChildren_loop eng parentElm ch0
                           (inc_newStart (dec_oldEnd
                              (put_old (oldEndIdx v) o1 (put_new (newStartIdx v) n1 v)))) st2))
             else
               (let v1 = v\<lparr>oldKeyToIdx := Some (the_key_map v)\<rparr>
                in case obj_get (the_key_map v) (key_name newStartVnode0) of
                     Undefined \<Rightarrow>
                       (case insert_new eng parentElm newStartVnode0 oldStartVnode0 v1 st of
                          Inl x \<Rightarrow> Inl x
                        | Inr (v2, st1) \<Rightarrow>
                            updateChildren_loop eng parentElm ch0 (inc_newStart v2) st1)
                   | Inherited \<Rightarrow> Inl (TypeError, st)
                   | Index idxInOld \<Rightarrow>
                       (case slot (oldCh v1) idxInOld of
                          None \<Rightarrow> Inl (TypeError, st)
                        | Some elmToMove \<Rightarrow>
                            if sel elmToMove \<noteq> sel newStartVnode0 then
                              (case insert_new eng parentElm newStartVnode0 oldStartVnode0 v1 st of
                                 Inl x \<Rightarrow> Inl x
                               | Inr (v2, st1) \<Rightarrow>
                                   updateChildren_loop eng parentElm ch0 (inc_newStart v2) st1)
                            else
                              (case patchVnode eng elmToMove newStartVnode0 st of
                                 Inl x \<Rightarrow> Inl x
                               | Inr ((o1, n1), st1) \<Rightarrow>
                                   (case api_insertBefore parentElm (elm elmToMove)
                                           (elm oldStartVnode0) st1 of
                                      Inl x \<Rightarrow> Inl x
                                    | Inr (u, st2) \<Rightarrow>
                                        updateChildren_loop eng parentElm ch0
                                          (inc_newStart (clear_old idxInOld
                                             (put_old idxInOld o1
                                                (put_new (newStartIdx v1) n1 v1)))) st2))))))))
      else uc_finish eng parentElm v st)"
  by pat_completeness auto


termination
  apply (relation "inv_image (less_than <*lex*> less_than)
     (\<lambda>x. case x of
        Inl (eng, oldVnode, vnode, st) \<Rightarrow> (size vnode, 0)
      | Inr (Inl (eng, parentElm, oldCh0, newCh0, st)) \<Rightarrow>
          (size_list (size_option size) newCh0, Suc (length oldCh0 + length newCh0))
      | Inr (Inr (eng, parentElm, ch0, v, st)) \<Rightarrow>
          (size_list (size_option size) ch0,
           nat (oldEndIdx v - oldStartIdx v + 1) + nat (newEndIdx v - newStartIdx v + 1)))")
  apply (auto simp: size_children size_children [OF sym] size_slot uc_init_def inc_oldStart_def dec_oldEnd_def
      inc_newStart_def dec_newEnd_def put_old_def put_new_def clear_old_def
      dest!: insert_new_idx)
  done


section \<open>The patch entry point\<close>

text \<open>
  The old root is a vnode of an earlier pass, or a raw element or fragment of the host
  tree.
\<close>

datatype root = OldVnode vnode | OldElement nat | OldFragment nat

definition toLowerCase :: "string \<Rightarrow> string" where
  "toLowerCase s =
     map (\<lambda>c. if 65 \<le> (of_char c :: nat) \<and> (of_char c :: nat) \<le> 90
              then char_of ((of_char c :: nat) + 32) else c) s"

text \<open>Modelled from the spec: \<open>tagName(node)\<close>, the tag the element was created with.\<close>

definition tagName :: "host \<Rightarrow> nat \<Rightarrow> string" where
  "tagName h n = (case kind_of h n of Some (ElementNode t nsp) \<Rightarrow> t | _ \<Rightarrow> [])"

definition emptyNodeAt :: "host \<Rightarrow> nat \<Rightarrow> vnode" where
  "emptyNodeAt h n =
     (let idp = (case attrs h n ''id'' of
                   None \<Rightarrow> []
                 | Some x \<Rightarrow> if x = [] then [] else CHR ''#'' # x);
          c = (case attrs h n ''class'' of
                 None \<Rightarrow> []
               | Some x \<Rightarrow>
                   if x = [] then []
                   else CHR ''.'' # map (\<lambda>ch. if ch = CHR '' '' then CHR ''.'' else ch) x)
      in VNode Synthetic (Some (toLowerCase (tagName h n) @ idp @ c)) None (Some emptyData)
           (Some (Synthetic, [])) None (Some n))"

definition emptyDocumentFragmentAt :: "nat \<Rightarrow> vnode" where
  "emptyDocumentFragmentAt n =
     VNode Synthetic None None (Some emptyData) (Some (Synthetic, [])) None (Some n)"

definition insert_hooks :: "vnode list \<Rightarrow> state \<Rightarrow> state" where
  "insert_hooks q st = emit (map (\<lambda>v. HookInsert (vid v)) q) st"

definition patch :: "engine \<Rightarrow> root \<Rightarrow> vnode \<Rightarrow> state \<Rightarrow> vnode result" where
  "patch eng oldRoot vnode st =
     (let st0 = emit (map ModulePre [0..<cbs_pre (engine_cbs eng)])
                  (st\<lparr>insertedVnodeQueue := []\<rparr>);
          oldVnode = (case oldRoot of
                        OldVnode ov \<Rightarrow> ov
                      | OldElement n \<Rightarrow> emptyNodeAt (dom st0) n
                      | OldFragment n \<Rightarrow> emptyDocumentFragmentAt n)
      in case (if sameVnode oldVnode vnode then
                 (case patchVnode eng oldVnode vnode st0 of
                    Inl x \<Rightarrow> Inl x
                  | Inr ((o1, n1), st1) \<Rightarrow> Inr (n1, st1))
               else
                 (case api_parentNode (elm oldVnode) st0 of
                    Inl x \<Rightarrow> Inl x
                  | Inr (parent, st1) \<Rightarrow>
                      (case createElm eng vnode st1 of
                         Inl x \<Rightarrow> Inl x
                       | Inr (n1, st2) \<Rightarrow>
                           if parent \<noteq> None then
                             (case api_nextSibling (elm oldVnode) st2 of
                                Inl x \<Rightarrow> Inl x
                              | Inr (sib, st3) \<Rightarrow>
                                  (case api_insertBefore parent (elm n1) sib st3 of
                                     Inl x \<Rightarrow> Inl x
                                   | Inr (u, st4) \<Rightarrow>
                                       (case removeVnodes eng parent [Some oldVnode] 0 0 st4 of
                                          Inl x \<Rightarrow> Inl x
                                        | Inr (u, st5) \<Rightarrow> Inr (n1, st5))))
                           else Inr (n1, st2)))) of
           Inl x \<Rightarrow> Inl x
         | Inr (n1, st6) \<Rightarrow>
             Inr (n1, emit (map ModulePost [0..<cbs_post (engine_cbs eng)])
                        (insert_hooks (insertedVnodeQueue st6) st6)))"


section \<open>An empty host tree\<close>

definition no_nodes :: host where
  "no_nodes = \<lparr>fresh = 0, kind_of = Map.empty, content = (\<lambda>n. []), attrs = (\<lambda>n. Map.empty),
               parent_of = Map.empty, kids = (\<lambda>n. [])\<rparr>"

definition start :: state where
  "start = \<lparr>dom = no_nodes, trace = [], rmcbs = [], insertedVnodeQueue = []\<rparr>"

declare addVnodes.simps [simp del]
declare removeVnodes.simps [simp del]
declare patchVnode.simps [simp del]
declare updateChildren.simps [simp del]
declare updateChildren_loop.simps [simp del]


section \<open>Reading the trace\<close>

text \<open>A call \<open>removeChild(_, c)\<close>: the host node \<open>c\<close> is detached.\<close>

fun is_detach :: "nat \<Rightarrow> event \<Rightarrow> bool" where
  "is_detach c (Api (RemoveChild p n)) = (n = Some c)"
| "is_detach c ev = False"

definition detach_count :: "nat \<Rightarrow> event list \<Rightarrow> nat" where
  "detach_count c tr = length (filter (is_detach c) tr)"

text \<open>
  The calls of \<open>rm\<close> made while \<open>removeVnodes\<close> runs on a vnode: those of the module
  \<open>remove\<close> hooks, and those of the vnode's own \<open>remove\<close> hook or, without one, the one
  call the engine makes itself.
\<close>

definition sync_rm_calls :: "engine \<Rightarrow> vnode \<Rightarrow> nat" where
  "sync_rm_calls eng ch =
     sum_list (cbs_remove (engine_cbs eng)) +
     (case hook_remove_of ch of Some k \<Rightarrow> k | None \<Rightarrow> 1)"

text \<open>
  The \<open>destroy\<close> calls for one vnode, and the vnodes \<open>invokeDestroyHook\<close> visits: the
  vnode itself when it has \<open>data\<close>, then what it visits in each non-null child.
\<close>

definition node_destroy_events :: "engine \<Rightarrow> vnode \<Rightarrow> event list" where
  "node_destroy_events eng v =
     (case data_hook v of
        None \<Rightarrow> []
      | Some h \<Rightarrow> if on_destroy h then [HookDestroy (vid v)] else []) @
     map (\<lambda>j. ModuleDestroy j (vid v)) [0..<cbs_destroy (engine_cbs eng)]"

fun destroyed_nodes :: "vnode \<Rightarrow> vnode list"
  and destroyed_nodes_list :: "vnode option list \<Rightarrow> vnode list" where
  "destroyed_nodes (VNode i s k d ch t e) =
     (case d of
        None \<Rightarrow> []
      | Some d0 \<Rightarrow>
          VNode i s k d ch t e #
          (case ch of None \<Rightarrow> [] | Some (a, cs) \<Rightarrow> destroyed_nodes_list cs))"
| "destroyed_nodes_list [] = []"
| "destroyed_nodes_list (c # cs) =
     (case c of None \<Rightarrow> [] | Some child \<Rightarrow> destroyed_nodes child) @ destroyed_nodes_list cs"

fun is_destroy :: "event \<Rightarrow> bool" where
  "is_destroy (HookDestroy i) = True"
| "is_destroy (ModuleDestroy j i) = True"
| "is_destroy ev = False"

fun is_remove :: "event \<Rightarrow> bool" where
  "is_remove (HookRemove i) = True"
| "is_remove (ModuleRemove j i) = True"
| "is_remove ev = False"

text \<open>\<open>emits P s s'\<close>: from \<open>s\<close> to \<open>s'\<close> the trace has grown, by events that all satisfy \<open>P\<close>.\<close>

definition emits :: "(event \<Rightarrow> bool) \<Rightarrow> state \<Rightarrow> state \<Rightarrow> bool" where
  "emits P s s' = (\<exists>w. trace s' = trace s @ w \<and> list_all P w)"

fun removal_event :: "event \<Rightarrow> bool" where
  "removal_event (Api (RemoveChild p n)) = True"
| "removal_event (ModuleRemove j i) = True"
| "removal_event (HookRemove i) = True"
| "removal_event ev = False"

section \<open>Example host trees\<close>

text \<open>An element \<open>0\<close> with one child element \<open>1\<close>.\<close>

definition one_child :: host where
  "one_child =
     \<lparr>fresh = 2,
      kind_of = [0 \<mapsto> ElementNode ''div'' None, 1 \<mapsto> ElementNode ''p'' None],
      content = (\<lambda>n. []), attrs = (\<lambda>n. Map.empty),
      parent_of = [1 \<mapsto> 0], kids = (\<lambda>n. [])(0 := [1])\<rparr>"

definition attached :: state where
  "attached = \<lparr>dom = one_child, trace = [], rmcbs = [], insertedVnodeQueue = []\<rparr>"

text \<open>
  What holds of the closure \<open>c\<close> made for host node \<open>e\<close> as long as \<open>rm\<close> is only called:
  \<open>removeChild\<close> has been called on \<open>e\<close> once (on top of the \<open>d0\<close> earlier calls) if the
  count is at or below zero, and \<open>e\<close> is out of the tree in exactly that case.
\<close>

definition rm_inv :: "nat \<Rightarrow> nat \<Rightarrow> nat \<Rightarrow> state \<Rightarrow> bool" where
  "rm_inv c e d0 s =
     (c < length (rmcbs s) \<and> fst (rmcbs s ! c) = Some e \<and>
      detach_count e (trace s) = d0 + (if snd (rmcbs s ! c) \<le> 0 then 1 else 0) \<and>
      ((parent_of (dom s) e = None) = (snd (rmcbs s ! c) \<le> 0)))"

text \<open>The events of \<open>createElm\<close>: host nodes are made, filled and appended; \<open>init\<close> and \<open>create\<close> hooks run.\<close>

fun build_event :: "event \<Rightarrow> bool" where
  "build_event (Api (InsertBefore p n r)) = False"
| "build_event (Api (RemoveChild p n)) = False"
| "build_event (Api (SetTextContent n t)) = False"
| "build_event (Api c) = True"
| "build_event (ModuleCreate j a b) = True"
| "build_event (HookInit i) = True"
| "build_event (HookCreate a b) = True"
| "build_event ev = False"

text \<open>The identities of a vnode and of all vnodes below it.\<close>

fun ids :: "vnode \<Rightarrow> ref list"
  and ids_list :: "vnode option list \<Rightarrow> ref list" where
  "ids (VNode i s k d ch t e) = i # (case ch of None \<Rightarrow> [] | Some (a, cs) \<Rightarrow> ids_list cs)"
| "ids_list [] = []"
| "ids_list (c # cs) = (case c of None \<Rightarrow> [] | Some v \<Rightarrow> ids v) @ ids_list cs"

text \<open>
  The events of the structural work of a pass on new vnodes with identities in \<open>S\<close>:
  anything but \<open>pre\<close>, \<open>post\<close> and \<open>insert\<close> calls, and \<open>prepatch\<close>, \<open>update\<close> and
  \<open>postpatch\<close> calls only with a new vnode of \<open>S\<close>.
\<close>

fun patch_event :: "ref set \<Rightarrow> event \<Rightarrow> bool" where
  "patch_event S (ModulePre j) = False"
| "patch_event S (ModulePost j) = False"
| "patch_event S (HookInsert i) = False"
| "patch_event S (ModuleUpdate j a b) = (b \<in> S)"
| "patch_event S (HookUpdate a b) = (b \<in> S)"
| "patch_event S (HookPrepatch a b) = (b \<in> S)"
| "patch_event S (HookPostpatch a b) = (b \<in> S)"
| "patch_event S ev = True"

text \<open>The new vnode an \<open>update\<close> call is made for.\<close>

fun update_target :: "event \<Rightarrow> ref option" where
  "update_target (ModuleUpdate j a b) = Some b"
| "update_target (HookUpdate a b) = Some b"
| "update_target ev = None"

text \<open>
  \<open>patchVnode\<close> on two distinct objects, phase by phase: the vnodes and the state after
  the \<open>update\<close> hooks, and the content reconciliation that follows.
\<close>

definition patched_new :: "vnode \<Rightarrow> vnode \<Rightarrow> vnode" where
  "patched_new oldVnode vnode =
     (if update_needed oldVnode vnode then default_data (set_elm (elm oldVnode) vnode)
      else set_elm (elm oldVnode) vnode)"

definition patched_old :: "vnode \<Rightarrow> vnode \<Rightarrow> vnode" where
  "patched_old oldVnode vnode =
     (if update_needed oldVnode vnode then default_data oldVnode else oldVnode)"

definition own_hook_events :: "vnode \<Rightarrow> (hooks \<Rightarrow> bool) \<Rightarrow> event \<Rightarrow> event list" where
  "own_hook_events v f ev =
     (case data_hook v of None \<Rightarrow> [] | Some h \<Rightarrow> if f h then [ev] else [])"

definition update_events :: "engine \<Rightarrow> vnode \<Rightarrow> vnode \<Rightarrow> event list" where
  "update_events eng oldVnode vnode =
     map (\<lambda>j. ModuleUpdate j (vid oldVnode) (vid vnode)) [0..<cbs_update (engine_cbs eng)] @
     own_hook_events vnode on_update (HookUpdate (vid oldVnode) (vid vnode))"

definition content_phase ::
  "engine \<Rightarrow> vnode \<Rightarrow> vnode \<Rightarrow> state \<Rightarrow> (vnode \<times> vnode) result" where
  "content_phase eng old2 vnode2 st2 =
     (case (vtext vnode2, children old2, children vnode2) of
        (None, Some (oa, ocs), Some (a, cs)) \<Rightarrow>
          if oa \<noteq> a then
            (case updateChildren eng (elm vnode2) ocs cs st2 of
               Inl x \<Rightarrow> Inl x
             | Inr ((ocs1, cs1), st3) \<Rightarrow>
                 Inr ((set_children (Some (oa, ocs1)) old2,
                       set_children (Some (a, cs1)) vnode2), st3))
          else Inr ((old2, vnode2), st2)
      | _ \<Rightarrow> patch_content eng old2 vnode2 st2)"

text \<open>
  The vnodes of a built tree that \<open>createElm\<close> puts on the insert queue, in the order in
  which it does: below an element (a selector other than \<open>"!"\<close>) those of its children,
  then the element itself if it has an \<open>insert\<close> hook; below a fragment those of its
  children; nothing for a comment or a text vnode.
\<close>

definition has_insert :: "vnode \<Rightarrow> bool" where
  "has_insert v = (case data_hook v of None \<Rightarrow> False | Some h \<Rightarrow> on_insert h)"

function (sequential) queued :: "engine \<Rightarrow> vnode \<Rightarrow> vnode list"
  and queued_list :: "engine \<Rightarrow> vnode option list \<Rightarrow> vnode list" where
  "queued eng (VNode i s k d ch t e) =
     (if s = Some ''!'' then []
      else
        (case s of
           Some sel0 \<Rightarrow>
             (case ch of None \<Rightarrow> [] | Some (a, cs) \<Rightarrow> queued_list eng cs) @
             (if has_insert (VNode i s k d ch t e) then [VNode i s k d ch t e] else [])
         | None \<Rightarrow>
             (case (if fragments eng then ch else None) of
                None \<Rightarrow> []
              | Some (a, cs) \<Rightarrow> queued_list eng cs)))"
| "queued_list eng [] = []"
| "queued_list eng (c # cs) =
     (case c of None \<Rightarrow> [] | Some v \<Rightarrow> queued eng v) @ queued_list eng cs"
  by pat_completeness auto
termination
  by (relation "measure (\<lambda>x. case x of Inl (eng, v) \<Rightarrow> size v
                                  | Inr (eng, cs) \<Rightarrow> size_list (size_option size) cs)")
     (auto split: if_splits)

text \<open>\<open>patch\<close> in parts: the old root as a vnode, and the work between the \<open>pre\<close> hooks and the \<open>insert\<close> hooks.\<close>

definition root_vnode :: "state \<Rightarrow> root \<Rightarrow> vnode" where
  "root_vnode st oldRoot =
     (case oldRoot of
        OldVnode ov \<Rightarrow> ov
      | OldElement n \<Rightarrow> emptyNodeAt (dom st) n
      | OldFragment n \<Rightarrow> emptyDocumentFragmentAt n)"

definition patch_body :: "engine \<Rightarrow> vnode \<Rightarrow> vnode \<Rightarrow> state \<Rightarrow> vnode result" where
  "patch_body eng oldVnode vnode st0 =
     (if sameVnode oldVnode vnode then
        (case patchVnode eng oldVnode vnode st0 of
           Inl x \<Rightarrow> Inl x
         | Inr ((o1, n1), st1) \<Rightarrow> Inr (n1, st1))
      else
        (case api_parentNode (elm oldVnode) st0 of
           Inl x \<Rightarrow> Inl x
         | Inr (parent, st1) \<Rightarrow>
             (case createElm eng vnode st1 of
                Inl x \<Rightarrow> Inl x
              | Inr (n1, st2) \<Rightarrow>
                  if parent \<noteq> None then
                    (case api_nextSibling (elm oldVnode) st2 of
                       Inl x \<Rightarrow> Inl x
                     | Inr (sib, st3) \<Rightarrow>
                         (case api_insertBefore parent (elm n1) sib st3 of
                            Inl x \<Rightarrow> Inl x
                          | Inr (u, st4) \<Rightarrow>
                              (case removeVnodes eng parent [Some oldVnode] 0 0 st4 of
                                 Inl x \<Rightarrow> Inl x
                               | Inr (u, st5) \<Rightarrow> Inr (n1, st5))))
                  else Inr (n1, st2))))"

section \<open>Reordering keyed children: the setting\<close>

text \<open>
  The old vnode that carries the key of a new vnode, and the host node it is bound to.
\<close>

definition old_for :: "vnode list \<Rightarrow> vnode \<Rightarrow> vnode option" where
  "old_for ols n = find (\<lambda>ov. key ov = key n) ols"

definition target :: "vnode list \<Rightarrow> vnode \<Rightarrow> nat option" where
  "target ols n = (case old_for ols n of None \<Rightarrow> None | Some ov \<Rightarrow> elm ov)"

definition slot_elm :: "vnode option \<Rightarrow> nat option" where
  "slot_elm c = (case c of None \<Rightarrow> None | Some v \<Rightarrow> elm v)"

text \<open>The vnodes in the slots \<open>a..b\<close> of a children array that are not cleared.\<close>

definition rem_list :: "vnode option list \<Rightarrow> int \<Rightarrow> int \<Rightarrow> vnode list" where
  "rem_list oc a b =
     concat (map (\<lambda>c. case c of None \<Rightarrow> [] | Some v \<Rightarrow> [v])
               (take (nat (b + 1 - a)) (drop (nat a) oc)))"

definition remaining :: "uc_vars \<Rightarrow> vnode list" where
  "remaining v = rem_list (oldCh v) (oldStartIdx v) (oldEndIdx v)"

definition new_window :: "vnode list \<Rightarrow> uc_vars \<Rightarrow> vnode list" where
  "new_window nws v =
     take (nat (newEndIdx v + 1 - newStartIdx v)) (drop (nat (newStartIdx v)) nws)"

text \<open>
  Patching an old child onto a new one stays below the child: it returns, binds the new
  vnode to the old one's host node, and leaves the children of the parent \<open>p\<close> and their
  parent links as they are, in whatever state it is called.
\<close>

definition child_patch_ok :: "engine \<Rightarrow> nat \<Rightarrow> vnode \<Rightarrow> vnode \<Rightarrow> bool" where
  "child_patch_ok eng p ov nv =
     (\<forall>s. \<exists>o1 n1 s1. patchVnode eng ov nv s = Inr ((o1, n1), s1) \<and> elm n1 = elm ov \<and>
            kids (dom s1) p = kids (dom s) p \<and>
            (\<forall>c \<in> set (kids (dom s) p). parent_of (dom s1) c = parent_of (dom s) c))"

text \<open>
  The new children are the old keyed children in another order: every old child has a key
  and a host node, keys and host nodes are pairwise distinct, the new children carry the
  same keys, and a new child is \<open>sameVnode\<close> with the old child of its key (same selector
  and same \<open>data.is\<close>).
\<close>

definition keyed_permutation :: "vnode list \<Rightarrow> vnode list \<Rightarrow> bool" where
  "keyed_permutation ols nws =
     ((\<forall>ov \<in> set ols. key ov \<noteq> None \<and> elm ov \<noteq> None) \<and>
      distinct (map key ols) \<and> distinct (map elm ols) \<and>
      mset (map key nws) = mset (map key ols) \<and>
      (\<forall>ov \<in> set ols. \<forall>nv \<in> set nws. key ov = key nv \<longrightarrow> sameVnode ov nv))"

text \<open>
  What holds whenever the loop of \<open>updateChildren\<close> is at its head, for such children:
  the children of \<open>p\<close> are the host nodes of the new children already placed at the
  front, then those of the old children still in the window, then those of the new
  children already placed at the back.
\<close>

definition uc_inv :: "nat \<Rightarrow> vnode list \<Rightarrow> vnode list \<Rightarrow> uc_vars \<Rightarrow> state \<Rightarrow> bool" where
  "uc_inv p ols nws v st =
     (0 \<le> oldStartIdx v \<and> oldStartIdx v \<le> oldEndIdx v + 1 \<and> oldEndIdx v < int (length ols) \<and>
      0 \<le> newStartIdx v \<and> newStartIdx v \<le> newEndIdx v + 1 \<and> newEndIdx v < int (length nws) \<and>
      length (oldCh v) = length ols \<and> length (newCh v) = length nws \<and>
      (\<forall>i. oldStartIdx v \<le> int i \<and> int i \<le> oldEndIdx v \<longrightarrow>
           oldCh v ! i = None \<or> oldCh v ! i = Some (ols ! i)) \<and>
      oldStartVnode v = slot (oldCh v) (oldStartIdx v) \<and>
      oldEndVnode v = slot (oldCh v) (oldEndIdx v) \<and>
      mset (map key (remaining v)) = mset (map key (new_window nws v)) \<and>
      (\<forall>m. oldKeyToIdx v = Some m \<longrightarrow>
         (\<forall>i. oldStartIdx v \<le> int i \<and> int i \<le> oldEndIdx v \<and> oldCh v ! i = Some (ols ! i) \<longrightarrow>
              m (key_name (ols ! i)) = Some (int i))) \<and>
      (\<forall>j < length nws. int j < newStartIdx v \<or> newEndIdx v < int j \<longrightarrow>
         slot_elm (newCh v ! j) = target ols (nws ! j)) \<and>
      map Some (kids (dom st) p) =
        map (target ols) (take (nat (newStartIdx v)) nws) @ map elm (remaining v) @
        map (target ols) (drop (nat (newEndIdx v + 1)) nws) \<and>
      (\<forall>c \<in> set (kids (dom st) p). parent_of (dom st) c = Some p) \<and>
      distinct (kids (dom st) p))"

section \<open>Example children lists\<close>

text \<open>A list \<open>ul\<close> (host node 0) with four items, and keyed \<open>li\<close> vnodes for it.\<close>

definition four_children :: host where
  "four_children =
     \<lparr>fresh = 5,
      kind_of = [0 \<mapsto> ElementNode ''ul'' None, 1 \<mapsto> ElementNode ''li'' None,
                 2 \<mapsto> ElementNode ''li'' None, 3 \<mapsto> ElementNode ''li'' None,
                 4 \<mapsto> ElementNode ''li'' None],
      content = (\<lambda>n. []), attrs = (\<lambda>n. Map.empty),
      parent_of = [1 \<mapsto> 0, 2 \<mapsto> 0, 3 \<mapsto> 0, 4 \<mapsto> 0],
      kids = (\<lambda>n. [])(0 := [1, 2, 3, 4])\<rparr>"

definition listed :: state where
  "listed = \<lparr>dom = four_children, trace = [], rmcbs = [], insertedVnodeQueue = []\<rparr>"

definition li :: "nat \<Rightarrow> vkey \<Rightarrow> nat option \<Rightarrow> vnode" where
  "li i k e = VNode (Ref i) (Some ''li'') (Some k) (Some emptyData) None None e"

definition dup_old :: "vnode option list" where
  "dup_old = [Some (li 1 (KString ''b'') (Some 1)), Some (li 2 (KString ''a'') (Some 2)),
              Some (li 3 (KString ''a'') (Some 3)), Some (li 4 (KString ''c'') (Some 4))]"

definition dup_new :: "vnode option list" where
  "dup_new = [Some (li 5 (KString ''a'') None), Some (li 6 (KString ''d'') None)]"

definition mixed_old :: "vnode option list" where
  "mixed_old = [Some (li 1 (KString ''b'') (Some 1)), Some (li 2 (KNumber ''1'') (Some 2)),
                Some (li 3 (KNumber ''1'') (Some 3)), Some (li 4 (KString ''1'') (Some 4))]"

definition mixed_new :: "vnode option list" where
  "mixed_new = [Some (li 5 (KNumber ''1'') None), Some (li 6 (KString ''d'') None)]"

definition proto_old :: "vnode option list" where
  "proto_old = [Some (li 1 (KString ''b'') (Some 1)), Some (li 2 (KString ''__proto__'') (Some 2)),
                Some (li 3 (KString ''__proto__'') (Some 3)), Some (li 4 (KString ''c'') (Some 4))]"

definition proto_new :: "vnode option list" where
  "proto_new = [Some (li 5 (KString ''__proto__'') None), Some (li 6 (KString ''d'') None)]"

section \<open>Built trees\<close>

text \<open>The host nodes of the children of a vnode, in order: the non-null slots that are bound.\<close>

fun child_elms :: "vnode option list \<Rightarrow> nat list" where
  "child_elms [] = []"
| "child_elms (c # cs) =
     (case c of
        None \<Rightarrow> child_elms cs
      | Some v \<Rightarrow> (case elm v of None \<Rightarrow> [] | Some n \<Rightarrow> [n]) @ child_elms cs)"

text \<open>
  The host tree \<open>h\<close> holds the tree of a built vnode: the vnode is bound to a node \<open>n\<close>
  with \<open>lo \<le> n < hi\<close>, and if it is an element or a fragment with a children array, the
  children of \<open>n\<close> in \<open>h\<close> are the nodes of the vnode's children, in their order, each
  with \<open>n\<close> as its parent, created after \<open>n\<close>, and each holding its own tree in turn. The
  children arrays looked at are those \<open>createElm\<close> looks at (none below a comment, and
  under a vnode without selector only when fragments are enabled).
\<close>

function (sequential) placed_in :: "engine \<Rightarrow> host \<Rightarrow> nat \<Rightarrow> nat \<Rightarrow> vnode \<Rightarrow> bool"
  and placed_list_in ::
    "engine \<Rightarrow> host \<Rightarrow> nat \<Rightarrow> nat \<Rightarrow> nat \<Rightarrow> vnode option list \<Rightarrow> bool" where
  "placed_in eng h lo hi (VNode i s k d ch t e) =
     (case e of
        None \<Rightarrow> False
      | Some n \<Rightarrow>
          lo \<le> n \<and> n < hi \<and>
          (if s = Some ''!'' then True
           else
             (case (if s = None \<and> \<not> fragments eng then None else ch) of
                None \<Rightarrow> True
              | Some (a, cs) \<Rightarrow>
                  kids h n = child_elms cs \<and> placed_list_in eng h n (Suc n) hi cs)))"
| "placed_list_in eng h p lo hi [] = True"
| "placed_list_in eng h p lo hi (c # cs) =
     ((case c of
         None \<Rightarrow> True
       | Some v \<Rightarrow>
           (case elm v of None \<Rightarrow> False | Some m \<Rightarrow> parent_of h m = Some p) \<and>
           placed_in eng h lo hi v) \<and>
      placed_list_in eng h p lo hi cs)"
  by pat_completeness auto
termination
  by (relation "measure (\<lambda>x. case x of Inl (eng, h, lo, hi, v) \<Rightarrow> size v
                                  | Inr (eng, h, p, lo, hi, cs) \<Rightarrow> size_list (size_option size) cs)")
     (auto split: if_splits)

text \<open>
  The vnodes \<open>createElm\<close> can build, that is, on which none of its two throws is reached:
  every element vnode it comes to has \<open>data\<close> (the read \<open>vnode.data!.hook\<close>), and no
  vnode without selector has children when fragments are enabled on an adapter without
  \<open>createDocumentFragment\<close>.
\<close>

function (sequential) buildable :: "engine \<Rightarrow> vnode \<Rightarrow> bool"
  and buildable_list :: "engine \<Rightarrow> vnode option list \<Rightarrow> bool" where
  "buildable eng (VNode i s k d ch t e) =
     (if s = Some ''!'' then True
      else
        (case s of
           Some sel0 \<Rightarrow>
             d \<noteq> None \<and> (case ch of None \<Rightarrow> True | Some (a, cs) \<Rightarrow> buildable_list eng cs)
         | None \<Rightarrow>
             (case (if fragments eng then ch else None) of
                None \<Rightarrow> True
              | Some (a, cs) \<Rightarrow> createDocumentFragment eng \<and> buildable_list eng cs)))"
| "buildable_list eng [] = True"
| "buildable_list eng (c # cs) =
     ((case c of None \<Rightarrow> True | Some v \<Rightarrow> buildable eng v) \<and> buildable_list eng cs)"
  by pat_completeness auto
termination
  by (relation "measure (\<lambda>x. case x of Inl (eng, v) \<Rightarrow> size v
                                  | Inr (eng, cs) \<Rightarrow> size_list (size_option size) cs)")
     (auto split: if_splits)

section \<open>Removal and the host tree\<close>

text \<open>
  What the closure \<open>c\<close> made for host node \<open>e\<close> has done to the host tree \<open>h\<close> it started
  from: nothing as long as its count is positive, and the one detachment of \<open>e\<close> after.
\<close>

definition rm_dom :: "nat \<Rightarrow> nat \<Rightarrow> host \<Rightarrow> state \<Rightarrow> bool" where
  "rm_dom c e h s =
     (c < length (rmcbs s) \<and> fst (rmcbs s ! c) = Some e \<and>
      dom s = (if snd (rmcbs s ! c) \<le> 0 then detach e h else h))"

section \<open>Queued vnodes and their host nodes\<close>

text \<open>An adapter call that puts host node \<open>c\<close> under a parent.\<close>

fun is_insertion :: "nat \<Rightarrow> event \<Rightarrow> bool" where
  "is_insertion c (Api (InsertBefore p n r)) = (n = Some c)"
| "is_insertion c (Api (AppendChild p n)) = (n = Some c)"
| "is_insertion c ev = False"

text \<open>What a step from state \<open>st\<close> to state \<open>st'\<close> has added to the trace and to the insert queue.\<close>

definition new_events :: "state \<Rightarrow> state \<Rightarrow> event list" where
  "new_events st st' = drop (length (trace st)) (trace st')"

definition new_queued :: "state \<Rightarrow> state \<Rightarrow> vnode list" where
  "new_queued st st' = drop (length (insertedVnodeQueue st)) (insertedVnodeQueue st')"

text \<open>A step that extends the trace, queues nothing and takes no host node away.\<close>

definition quiet :: "state \<Rightarrow> state \<Rightarrow> bool" where
  "quiet st st' =
     (take (length (trace st)) (trace st') = trace st \<and>
      insertedVnodeQueue st' = insertedVnodeQueue st \<and> fresh (dom st) \<le> fresh (dom st'))"

text \<open>
  A queued vnode \<open>u\<close> is as it should be, for a step with the new events \<open>w\<close>: it is an
  element vnode with an \<open>insert\<close> hook, it is bound to a host node \<open>c\<close> with
  \<open>lo \<le> c < hi\<close> (for \<open>lo\<close> the first unused node at the start and \<open>hi\<close> the first unused
  node at the end: a node made during the step), and \<open>c\<close> has been put under a parent by
  an adapter call of the step, unless it is one of the nodes \<open>X\<close> still waiting for that.
\<close>

definition queued_ok :: "nat \<Rightarrow> nat \<Rightarrow> nat list \<Rightarrow> event list \<Rightarrow> vnode \<Rightarrow> bool" where
  "queued_ok lo hi X w u =
     (has_insert u \<and> sel u \<noteq> None \<and> sel u \<noteq> Some ''!'' \<and>
      (case elm u of
         None \<Rightarrow> False
       | Some c \<Rightarrow> lo \<le> c \<and> c < hi \<and> (list_ex (is_insertion c) w \<or> c \<in> set X)))"

text \<open>
  A step that extends the trace and the insert queue, where the vnodes it queues are as
  they should be and are bound to pairwise different host nodes.
\<close>

definition built_step :: "nat \<Rightarrow> nat list \<Rightarrow> state \<Rightarrow> state \<Rightarrow> bool" where
  "built_step lo X st st' =
     (take (length (trace st)) (trace st') = trace st \<and>
      take (length (insertedVnodeQueue st)) (insertedVnodeQueue st') = insertedVnodeQueue st \<and>
      fresh (dom st) \<le> fresh (dom st') \<and>
      distinct (map elm (new_queued st st')) \<and>
      list_all (queued_ok lo (fresh (dom st')) X (new_events st st')) (new_queued st st'))"

text \<open>
  The host node of the new root in a pass that has to build it (the old root is not
  \<open>sameVnode\<close>) and finds no parent to put it under; no node otherwise.
\<close>

definition unattached_root :: "state \<Rightarrow> root \<Rightarrow> vnode \<Rightarrow> nat list" where
  "unattached_root st oldRoot vnode =
     (if \<not> sameVnode (root_vnode st oldRoot) vnode \<and>
         (case elm (root_vnode st oldRoot) of
            None \<Rightarrow> True
          | Some e \<Rightarrow> parentNode (dom st) e = None)
      then [fresh (dom st)] else [])"

section \<open>Properties of the key map\<close>

declare createKeyToOldIdx_loop.simps [simp del]

lemma key_loop_step_none:
  "i \<le> e \<Longrightarrow> slot_key chs i = None \<Longrightarrow>
     createKeyToOldIdx_loop chs i e m = createKeyToOldIdx_loop chs (i + 1) e m"
  by (subst createKeyToOldIdx_loop.simps) simp

lemma key_loop_step_some:
  "i \<le> e \<Longrightarrow> slot_key chs i = Some k' \<Longrightarrow>
     createKeyToOldIdx_loop chs i e m =
     createKeyToOldIdx_loop chs (i + 1) e (obj_set m (prop_name k') i)"
  by (subst createKeyToOldIdx_loop.simps) simp

lemma key_loop_done: "\<not> i \<le> e \<Longrightarrow> createKeyToOldIdx_loop chs i e m = m"
  by (subst createKeyToOldIdx_loop.simps) simp

lemma obj_set_other: "name \<noteq> nm \<Longrightarrow> obj_set m name i nm = m nm"
  by (simp add: obj_set_def)

lemma obj_set_same: "nm \<noteq> ''__proto__'' \<Longrightarrow> obj_set m nm i nm = Some i"
  by (simp add: obj_set_def)

lemma slot_name_some: "slot_key chs i = Some k \<Longrightarrow> slot_name chs i = Some (prop_name k)"
  by (simp add: slot_name_def)

lemma key_loop_absent:
  "(\<And>j. i \<le> j \<Longrightarrow> j \<le> e \<Longrightarrow> slot_name chs j \<noteq> Some nm) \<Longrightarrow>
     createKeyToOldIdx_loop chs i e m nm = m nm"
proof (induction chs i e m rule: createKeyToOldIdx_loop.induct)
  case (1 chs i endIdx m)
  show ?case
  proof (cases "i \<le> endIdx")
    case False
    then show ?thesis by (simp add: key_loop_done)
  next
    case True
    have here: "slot_name chs i \<noteq> Some nm" using 1(3) [of i] True by simp
    have rest: "\<And>j. i + 1 \<le> j \<Longrightarrow> j \<le> endIdx \<Longrightarrow> slot_name chs j \<noteq> Some nm"
      using 1(3) by simp
    show ?thesis
    proof (cases "slot_key chs i")
      case None
      have "createKeyToOldIdx_loop chs i endIdx m nm =
            createKeyToOldIdx_loop chs (i + 1) endIdx m nm"
        by (simp only: key_loop_step_none [OF True None])
      also have "\<dots> = m nm" by (rule 1(1) [OF True None rest])
      finally show ?thesis .
    next
      case (Some k')
      with here have ne: "prop_name k' \<noteq> nm" by (simp add: slot_name_def)
      have "createKeyToOldIdx_loop chs i endIdx m nm =
            createKeyToOldIdx_loop chs (i + 1) endIdx (obj_set m (prop_name k') i) nm"
        by (simp only: key_loop_step_some [OF True Some])
      also have "\<dots> = (obj_set m (prop_name k') i) nm" by (rule 1(2) [OF True Some rest])
      also have "\<dots> = m nm" using ne by (rule obj_set_other)
      finally show ?thesis .
    qed
  qed
qed

lemma key_loop_last:
  "i \<le> j \<Longrightarrow> j \<le> e \<Longrightarrow> slot_name chs j = Some nm \<Longrightarrow> nm \<noteq> ''__proto__'' \<Longrightarrow>
   (\<And>j'. j < j' \<Longrightarrow> j' \<le> e \<Longrightarrow> slot_name chs j' \<noteq> Some nm) \<Longrightarrow>
     createKeyToOldIdx_loop chs i e m nm = Some j"
proof (induction chs i e m rule: createKeyToOldIdx_loop.induct)
  case (1 chs i endIdx m)
  from 1(3,4) have le: "i \<le> endIdx" by simp
  show ?case
  proof (cases "i = j")
    case True
    from 1(5) True obtain k where k: "slot_key chs i = Some k" and nm: "prop_name k = nm"
      by (auto simp: slot_name_def split: option.splits)
    have "createKeyToOldIdx_loop chs i endIdx m nm =
          createKeyToOldIdx_loop chs (i + 1) endIdx (obj_set m nm i) nm"
      using key_loop_step_some [OF le k, of m] nm by simp
    also have "\<dots> = (obj_set m nm i) nm"
      by (rule key_loop_absent) (use 1(7) True in auto)
    finally show ?thesis using True 1(6) by (simp add: obj_set_same)
  next
    case False
    with 1(3) have lt: "i + 1 \<le> j" by simp
    show ?thesis
    proof (cases "slot_key chs i")
      case None
      have "createKeyToOldIdx_loop chs i endIdx m nm =
            createKeyToOldIdx_loop chs (i + 1) endIdx m nm"
        by (simp only: key_loop_step_none [OF le None])
      also have "\<dots> = Some j" by (rule 1(1) [OF le None lt 1(4) 1(5) 1(6) 1(7)])
      finally show ?thesis .
    next
      case (Some k')
      have "createKeyToOldIdx_loop chs i endIdx m nm =
            createKeyToOldIdx_loop chs (i + 1) endIdx (obj_set m (prop_name k') i) nm"
        by (simp only: key_loop_step_some [OF le Some])
      also have "\<dots> = Some j" by (rule 1(2) [OF le Some lt 1(4) 1(5) 1(6) 1(7)])
      finally show ?thesis .
    qed
  qed
qed

text \<open>Nothing is ever recorded under \<open>__proto__\<close>.\<close>

lemma key_loop_proto:
  "createKeyToOldIdx_loop chs i e m ''__proto__'' = m ''__proto__''"
proof (induction chs i e m rule: createKeyToOldIdx_loop.induct)
  case (1 chs i endIdx m)
  show ?case
  proof (cases "i \<le> endIdx")
    case False
    then show ?thesis by (simp add: key_loop_done)
  next
    case True
    show ?thesis
    proof (cases "slot_key chs i")
      case None
      then show ?thesis using 1(1) [OF True None] by (simp add: key_loop_step_none [OF True None])
    next
      case (Some k')
      then show ?thesis using 1(2) [OF True Some]
        by (simp add: key_loop_step_some [OF True Some] obj_set_def)
    qed
  qed
qed


section \<open>Properties of element building\<close>

lemma api_appendChild_error:
  "api_appendChild p n st = Inl (e, st') \<Longrightarrow> e = TypeError"
  by (auto simp: api_appendChild_def insertBefore_def Let_def split: option.splits sum.splits)

lemma own_create_hooks_error:
  "own_create_hooks v st = Inl (e, st') \<Longrightarrow> e = TypeError"
  by (auto simp: own_create_hooks_def Let_def split: option.splits if_splits)

lemma createElm_error_kinds:
  "createElm eng v st = Inl (e, st') \<Longrightarrow>
     e = TypeError \<or> (e = DocumentFragmentNotSupported \<and> fragments eng \<and> \<not> createDocumentFragment eng)"
  "createElm_children eng n cs st = Inl (e, st') \<Longrightarrow>
     e = TypeError \<or> (e = DocumentFragmentNotSupported \<and> fragments eng \<and> \<not> createDocumentFragment eng)"
proof (induction eng v st and eng n cs st arbitrary: e st' and e st'
    rule: createElm_createElm_children.induct)
  case (1 eng i s k d ch t e0 st)
  then show ?case
    by (auto simp: Let_def split: if_splits option.splits sum.splits prod.splits
        dest: api_appendChild_error own_create_hooks_error)
next
  case (2 eng n st)
  then show ?case by simp
next
  case (3 eng n c cs st)
  then show ?case
    by (auto split: option.splits sum.splits prod.splits dest: api_appendChild_error)
qed


lemma createElm_needs_data:
  "createElm eng (VNode i (Some s) k None ch t e0) st = Inr r \<Longrightarrow> s = ''!''"
  by (auto simp: Let_def own_create_hooks_def data_ns_def
      split: if_splits option.splits sum.splits prod.splits)

text \<open>
  C8. With fragments enabled and an adapter without \<open>createDocumentFragment\<close>, \<open>createElm\<close>
  on a vnode with no selector and with children throws the fragment error at once: the
  state it leaves is the one it was called in, but for the vnode's own \<open>init\<close> hook if it
  has one. No host node is created and no child is built.
\<close>

theorem createElm_fragment_not_supported:
  assumes "sel v = None" and "children v = Some c"
    and "fragments eng" and "\<not> createDocumentFragment eng"
  shows "createElm eng v st =
           Inl (DocumentFragmentNotSupported,
                st\<lparr>trace := trace st @
                  (case data_hook v of
                     None \<Rightarrow> []
                   | Some h \<Rightarrow> if on_init h then [HookInit (vid v)] else [])\<rparr>)"
  using assms
  by (cases v; cases c)
     (auto simp: call_init_def emit_def split: option.splits)

theorem createElm_fragment_not_supported_witness:
  "sel (VNode (Ref 0) None None None (Some (Ref 1, [Some (VNode (Ref 2) None None None None (Some ''x'') None)])) None None) = None \<and>
   fragments (init [] False True) \<and> \<not> createDocumentFragment (init [] False True) \<and>
   createElm (init [] False True)
     (VNode (Ref 0) None None None (Some (Ref 1, [Some (VNode (Ref 2) None None None None (Some ''x'') None)])) None None)
     start = Inl (DocumentFragmentNotSupported, start)"
  using createElm_fragment_not_supported
    [of "VNode (Ref 0) None None None (Some (Ref 1, [Some (VNode (Ref 2) None None None None (Some ''x'') None)])) None None"
        "(Ref 1, [Some (VNode (Ref 2) None None None None (Some ''x'') None)])"
        "init [] False True" start]
  by (simp add: init_def start_def)

section \<open>Properties of patching\<close>

lemma set_elm_same [simp]: "set_elm (elm v) v = v"
  by (cases v) simp

text \<open>
  C4. \<open>patchVnode\<close> called with the same object as old and new vnode returns right after
  binding \<open>elm\<close>: the vnode is unchanged, the host tree is unchanged, and nothing is added
  to the trace (no adapter call, no module hook, no \<open>update\<close> hook) but the call of the
  vnode's own \<open>prepatch\<close> hook, which precedes the identity test.
\<close>

theorem patchVnode_same_reference:
  "patchVnode eng v v st =
     Inr ((v, v),
          st\<lparr>trace := trace st @
            (case data_hook v of
               None \<Rightarrow> []
             | Some h \<Rightarrow> if on_prepatch h then [HookPrepatch (vid v) (vid v)] else [])\<rparr>)"
  by (subst patchVnode.simps)
     (auto simp: prepatch_hook_def emit_def split: option.splits)


section \<open>Properties of removal\<close>

lemma rmCb_inv:
  assumes "rm_inv c e d0 s"
  shows "\<exists>s'. rmCb c s = Inr ((), s') \<and> rm_inv c e d0 s' \<and>
           snd (rmcbs s' ! c) = snd (rmcbs s ! c) - 1"
proof -
  obtain l where l: "rmcbs s ! c = (Some e, l)"
    using assms by (cases "rmcbs s ! c") (simp add: rm_inv_def)
  show ?thesis
  proof (cases "l = 1")
    case True
    with assms l obtain p where p: "parent_of (dom s) e = Some p"
      by (auto simp: rm_inv_def)
    with assms l True show ?thesis
      by (simp add: rm_inv_def rmCb_def api_parentNode_def api_removeChild_def removeChild_def
          detach_def emit_def parentNode_def detach_count_def Let_def)
  next
    case False
    with assms l show ?thesis
      by (auto simp: rm_inv_def rmCb_def Let_def)
  qed
qed

lemma emit_inv:
  "rm_inv c e d0 s \<Longrightarrow> \<forall>ev \<in> set es. \<not> is_detach e ev \<Longrightarrow> rm_inv c e d0 (emit es s)"
  by (simp add: rm_inv_def emit_def detach_count_def)

lemma emit_cnt [simp]: "rmcbs (emit es s) = rmcbs s"
  by (simp add: emit_def)

lemma rm_times_inv:
  "rm_inv c e d0 s \<Longrightarrow>
     \<exists>s'. rm_times k c s = Inr ((), s') \<and> s' = rm_later k c s \<and> rm_inv c e d0 s' \<and>
          snd (rmcbs s' ! c) = snd (rmcbs s ! c) - int k"
proof (induction k arbitrary: s)
  case 0
  then show ?case by simp
next
  case (Suc k)
  from rmCb_inv [OF Suc.prems] obtain s1 where
    s1: "rmCb c s = Inr ((), s1)" "rm_inv c e d0 s1" "snd (rmcbs s1 ! c) = snd (rmcbs s ! c) - 1"
    by blast
  from Suc.IH [OF s1(2)] s1 show ?case by (auto simp: state_of_def)
qed

lemma rm_later_inv:
  "rm_inv c e d0 s \<Longrightarrow>
     rm_inv c e d0 (rm_later k c s) \<and>
     snd (rmcbs (rm_later k c s) ! c) = snd (rmcbs s ! c) - int k"
  using rm_times_inv [of c e d0 s k] by auto

lemma module_remove_hooks_inv:
  "rm_inv c e d0 s \<Longrightarrow>
     \<exists>s'. module_remove_hooks c i j ks s = Inr ((), s') \<and> rm_inv c e d0 s' \<and>
          snd (rmcbs s' ! c) = snd (rmcbs s ! c) - int (sum_list ks)"
proof (induction ks arbitrary: s j)
  case Nil
  then show ?case by simp
next
  case (Cons k ks)
  have "rm_inv c e d0 (emit [ModuleRemove j i] s)"
    by (rule emit_inv [OF Cons.prems]) simp
  from rm_times_inv [OF this, of k] obtain s1 where
    s1: "rm_times k c (emit [ModuleRemove j i] s) = Inr ((), s1)" "rm_inv c e d0 s1"
        "snd (rmcbs s1 ! c) = snd (rmcbs s ! c) - int k"
    by auto
  from Cons.IH [OF s1(2), of "Suc j"] s1 show ?case by auto
qed


lemma emit_emit [simp]: "emit b (emit a s) = emit (a @ b) s"
  by (simp add: emit_def)

lemma emit_nil [simp]: "emit [] s = s"
  by (simp add: emit_def)

lemma node_emit:
  "module_destroy_hooks eng i (own_destroy_hook (VNode i s k d ch t e) st) =
     emit (node_destroy_events eng (VNode i s k d ch t e)) st"
  by (simp add: node_destroy_events_def own_destroy_hook_def module_destroy_hooks_def
      split: option.splits)

lemma invokeDestroyHook_emit:
  "invokeDestroyHook eng v st =
     emit (concat (map (node_destroy_events eng) (destroyed_nodes v))) st"
  "invokeDestroyHook_children eng cs st =
     emit (concat (map (node_destroy_events eng) (destroyed_nodes_list cs))) st"
proof (induction eng v st and eng cs st rule: invokeDestroyHook_invokeDestroyHook_children.induct)
  case (1 eng i s k d ch t e st)
  then show ?case
    by (auto simp: Let_def node_emit split: option.splits)
next
  case (2 eng st)
  then show ?case by simp
next
  case (3 eng c cs st)
  then show ?case by (auto split: option.splits)
qed

lemma node_destroy_events_no_detach:
  "ev \<in> set (node_destroy_events eng v) \<Longrightarrow> \<not> is_detach c ev \<and> is_destroy ev"
  by (auto simp: node_destroy_events_def split: option.splits if_splits)

lemma removeVnodes_single:
  "removeVnodes eng p [Some ch] 0 0 st = removeVnode eng p ch st"
proof -
  have "removeVnodes eng p [Some ch] 1 0 s = Inr ((), s)" for s
    by (subst removeVnodes.simps) simp
  then show ?thesis
    by (subst removeVnodes.simps) (auto simp: slot_def split: sum.splits)
qed

lemma removeVnode_inv:
  assumes "sel ch \<noteq> None" and "elm ch = Some c" and "parent_of (dom st) c \<noteq> None"
  shows "\<exists>st1. removeVnode eng parentElm ch st = Inr ((), st1) \<and>
           rm_inv (length (rmcbs st)) c (detach_count c (trace st)) st1 \<and>
           snd (rmcbs st1 ! length (rmcbs st)) =
             int (length (cbs_remove (engine_cbs eng))) + 1 - int (sync_rm_calls eng ch)"
proof -
  let ?rm = "length (rmcbs st)"
  let ?d0 = "detach_count c (trace st)"
  let ?D = "concat (map (node_destroy_events eng) (destroyed_nodes ch))"
  let ?L = "int (length (cbs_remove (engine_cbs eng))) + 1"
  let ?st2 = "(emit ?D st)\<lparr>rmcbs := rmcbs (emit ?D st) @ [(Some c, ?L)]\<rparr>"
  have nd: "filter (is_detach c) ?D = []"
    by (auto simp: filter_empty_conv dest: node_destroy_events_no_detach)
  have inv2: "rm_inv ?rm c ?d0 ?st2"
    using assms(3) nd by (simp add: rm_inv_def emit_def detach_count_def)
  have cnt2: "snd (rmcbs ?st2 ! ?rm) = ?L" by (simp add: emit_def)
  from module_remove_hooks_inv [OF inv2, of "vid ch" 0 "cbs_remove (engine_cbs eng)"]
  obtain st3 where st3:
    "module_remove_hooks ?rm (vid ch) 0 (cbs_remove (engine_cbs eng)) ?st2 = Inr ((), st3)"
    "rm_inv ?rm c ?d0 st3"
    "snd (rmcbs st3 ! ?rm) = ?L - int (sum_list (cbs_remove (engine_cbs eng)))"
    using cnt2 by auto
  have unfold: "removeVnode eng parentElm ch st =
      (case hook_remove_of ch of
         Some k \<Rightarrow> rm_times k ?rm (emit [HookRemove (vid ch)] st3)
       | None \<Rightarrow> rmCb ?rm st3)"
    using assms(1,2) st3(1)
    by (simp add: removeVnode_def createRmCb_def invokeDestroyHook_emit Let_def
        cong: option.case_cong)
  show ?thesis
  proof (cases "hook_remove_of ch")
    case None
    from rmCb_inv [OF st3(2)] obtain st4 where
      "rmCb ?rm st3 = Inr ((), st4)" "rm_inv ?rm c ?d0 st4"
      "snd (rmcbs st4 ! ?rm) = snd (rmcbs st3 ! ?rm) - 1"
      by blast
    with None unfold st3(3) show ?thesis by (simp add: sync_rm_calls_def)
  next
    case (Some k)
    have "rm_inv ?rm c ?d0 (emit [HookRemove (vid ch)] st3)"
      by (rule emit_inv [OF st3(2)]) simp
    from rm_times_inv [OF this, of k] obtain st4 where
      "rm_times k ?rm (emit [HookRemove (vid ch)] st3) = Inr ((), st4)" "rm_inv ?rm c ?d0 st4"
      "snd (rmcbs st4 ! ?rm) = snd (rmcbs st3 ! ?rm) - int k"
      by auto
    with Some unfold st3(3) show ?thesis by (simp add: sync_rm_calls_def)
  qed
qed

text \<open>
  C3. \<open>removeVnodes\<close> on a vnode with a selector whose host node \<open>c\<close> is attached: the
  callback \<open>rm\<close> it makes starts with the count \<open>cbs.remove.length + 1\<close> and every call
  takes one off, the calls made by the hooks during \<open>removeVnodes\<close> as well as any number
  \<open>k\<close> of calls made afterwards, so the count goes below zero when there are more calls
  than listeners. Whatever \<open>k\<close> is, \<open>removeChild\<close> has been called on \<open>c\<close> once if the
  calls made so far have brought the count to zero, and not at all otherwise; and \<open>c\<close>
  is out of the host tree in exactly that case.
\<close>

theorem rm_detaches_exactly_once:
  assumes "sel ch \<noteq> None" and "elm ch = Some c" and "parent_of (dom st) c \<noteq> None"
  shows "\<exists>st1. removeVnodes eng parentElm [Some ch] 0 0 st = Inr ((), st1) \<and>
           rmcbs (rm_later k (length (rmcbs st)) st1) ! length (rmcbs st) =
             (Some c, int (length (cbs_remove (engine_cbs eng))) + 1
                        - int (sync_rm_calls eng ch + k)) \<and>
           detach_count c (trace (rm_later k (length (rmcbs st)) st1)) =
             detach_count c (trace st) +
             (if length (cbs_remove (engine_cbs eng)) + 1 \<le> sync_rm_calls eng ch + k
              then 1 else 0) \<and>
           (parent_of (dom (rm_later k (length (rmcbs st)) st1)) c = None) =
             (length (cbs_remove (engine_cbs eng)) + 1 \<le> sync_rm_calls eng ch + k)"
proof -
  from removeVnode_inv [OF assms, of eng parentElm] obtain st1 where st1:
    "removeVnode eng parentElm ch st = Inr ((), st1)"
    "rm_inv (length (rmcbs st)) c (detach_count c (trace st)) st1"
    "snd (rmcbs st1 ! length (rmcbs st)) =
       int (length (cbs_remove (engine_cbs eng))) + 1 - int (sync_rm_calls eng ch)"
    by blast
  from rm_later_inv [OF st1(2), of k] st1(3)
  have later: "rm_inv (length (rmcbs st)) c (detach_count c (trace st))
                 (rm_later k (length (rmcbs st)) st1)"
    "snd (rmcbs (rm_later k (length (rmcbs st)) st1) ! length (rmcbs st)) =
       int (length (cbs_remove (engine_cbs eng))) + 1 - int (sync_rm_calls eng ch + k)"
    by auto
  have "rmcbs (rm_later k (length (rmcbs st)) st1) ! length (rmcbs st) =
          (Some c, int (length (cbs_remove (engine_cbs eng))) + 1
                     - int (sync_rm_calls eng ch + k))"
    using later by (simp add: rm_inv_def prod_eq_iff)
  moreover have "detach_count c (trace (rm_later k (length (rmcbs st)) st1)) =
             detach_count c (trace st) +
             (if length (cbs_remove (engine_cbs eng)) + 1 \<le> sync_rm_calls eng ch + k
              then 1 else 0)"
    using later by (auto simp: rm_inv_def)
  moreover have "(parent_of (dom (rm_later k (length (rmcbs st)) st1)) c = None) =
             (length (cbs_remove (engine_cbs eng)) + 1 \<le> sync_rm_calls eng ch + k)"
    using later by (auto simp: rm_inv_def)
  ultimately show ?thesis using st1(1) by (simp add: removeVnodes_single)
qed


theorem rm_detaches_exactly_once_witness:
  "\<exists>st1. removeVnodes
            (init [\<lparr>m_create = False, m_update = False, m_remove = Some 0, m_destroy = False,
                    m_pre = False, m_post = False\<rparr>] False False)
            (Some 0) [Some (VNode (Ref 1) (Some ''p'') None (Some emptyData) None None (Some 1))]
            0 0 attached = Inr ((), st1) \<and>
         rmcbs (rm_later 3 0 st1) ! 0 = (Some 1, - 2) \<and>
         detach_count 1 (trace (rm_later 3 0 st1)) = 1 \<and>
         parent_of (dom (rm_later 3 0 st1)) 1 = None"
  using rm_detaches_exactly_once
    [of "VNode (Ref 1) (Some ''p'') None (Some emptyData) None None (Some 1)" 1 attached
        "init [\<lparr>m_create = False, m_update = False, m_remove = Some 0, m_destroy = False,
                m_pre = False, m_post = False\<rparr>] False False" "Some 0" 3]
  by (simp add: attached_def one_child_def init_def sync_rm_calls_def hook_remove_of_def
      emptyData_def detach_count_def)

lemma emits_refl [simp]: "emits P s s"
  by (simp add: emits_def)

lemma emits_trans: "emits P s s1 \<Longrightarrow> emits P s1 s2 \<Longrightarrow> emits P s s2"
  by (auto simp: emits_def)

lemma emits_emit: "list_all P es \<Longrightarrow> emits P s (emit es s)"
  by (simp add: emits_def emit_def)

lemma emits_mono: "emits P s s' \<Longrightarrow> (\<And>ev. P ev \<Longrightarrow> Q ev) \<Longrightarrow> emits Q s s'"
  by (auto simp: emits_def list_all_iff)

lemma rmCb_emits: "emits removal_event s (state_of (rmCb c s))"
  by (auto simp: rmCb_def state_of_def emits_def api_parentNode_def api_removeChild_def emit_def
      Let_def split: prod.splits option.splits sum.splits)

lemma rm_times_emits: "emits removal_event s (state_of (rm_times k c s))"
proof (induction k arbitrary: s)
  case 0
  then show ?case by (simp add: state_of_def)
next
  case (Suc k)
  show ?case
  proof (cases "rmCb c s")
    case (Inl a)
    with rmCb_emits [of s c] show ?thesis by (simp add: state_of_def)
  next
    case (Inr b)
    obtain u s1 where b: "b = (u, s1)" by (cases b)
    from rmCb_emits [of s c] Inr b have "emits removal_event s s1" by (simp add: state_of_def)
    from emits_trans [OF this Suc.IH [of s1]] Inr b show ?thesis by simp
  qed
qed

lemma module_remove_hooks_emits:
  "emits removal_event s (state_of (module_remove_hooks c i j ks s))"
proof (induction ks arbitrary: s j)
  case Nil
  then show ?case by (simp add: state_of_def)
next
  case (Cons k ks)
  have a: "emits removal_event s (emit [ModuleRemove j i] s)"
    by (rule emits_emit) simp
  have b: "emits removal_event s (state_of (rm_times k c (emit [ModuleRemove j i] s)))"
    by (rule emits_trans [OF a rm_times_emits])
  show ?case
  proof (cases "rm_times k c (emit [ModuleRemove j i] s)")
    case (Inl x)
    with b show ?thesis by (simp add: state_of_def)
  next
    case (Inr y)
    obtain u s1 where y: "y = (u, s1)" by (cases y)
    from b Inr y have "emits removal_event s s1" by (simp add: state_of_def)
    from emits_trans [OF this Cons.IH [of s1 "Suc j"]] Inr y show ?thesis by simp
  qed
qed

lemma api_removeChild_emits: "emits removal_event s (state_of (api_removeChild p n s))"
  by (auto simp: state_of_def emits_def api_removeChild_def emit_def
      Let_def split: prod.splits option.splits sum.splits)

lemma removeVnode_trace:
  assumes "sel ch \<noteq> None"
  shows "emits removal_event
           (emit (concat (map (node_destroy_events eng) (destroyed_nodes ch))) st)
           (state_of (removeVnode eng parentElm ch st))"
proof -
  let ?D = "concat (map (node_destroy_events eng) (destroyed_nodes ch))"
  let ?st2 = "(emit ?D st)\<lparr>rmcbs := rmcbs (emit ?D st) @ [(elm ch, int (length (cbs_remove (engine_cbs eng))) + 1)]\<rparr>"
  let ?rm = "length (rmcbs st)"
  let ?m = "module_remove_hooks ?rm (vid ch) 0 (cbs_remove (engine_cbs eng)) ?st2"
  have e2: "emits removal_event (emit ?D st) ?st2" by (simp add: emits_def)
  have e3: "emits removal_event (emit ?D st) (state_of ?m)"
    by (rule emits_trans [OF e2 module_remove_hooks_emits])
  show ?thesis
  proof (cases ?m)
    case (Inl x)
    with assms e3 show ?thesis
      by (simp add: removeVnode_def createRmCb_def invokeDestroyHook_emit Let_def state_of_def)
  next
    case (Inr y)
    obtain u st3 where y: "y = (u, st3)" by (cases y)
    from e3 Inr y have e3': "emits removal_event (emit ?D st) st3" by (simp add: state_of_def)
    have "emits removal_event st3
            (state_of (case hook_remove_of ch of
                         Some k \<Rightarrow> rm_times k ?rm (emit [HookRemove (vid ch)] st3)
                       | None \<Rightarrow> rmCb ?rm st3))"
    proof (cases "hook_remove_of ch")
      case None
      then show ?thesis by (simp add: rmCb_emits)
    next
      case (Some k)
      have "emits removal_event st3 (emit [HookRemove (vid ch)] st3)"
        by (rule emits_emit) simp
      from emits_trans [OF this rm_times_emits] Some show ?thesis by simp
    qed
    from emits_trans [OF e3' this] assms Inr y show ?thesis
      by (simp add: removeVnode_def createRmCb_def invokeDestroyHook_emit Let_def
          cong: option.case_cong)
  qed
qed


lemma count_list_concat_map:
  "count_list (concat (map f xs)) e = sum_list (map (\<lambda>x. count_list (f x) e) xs)"
  by (induction xs) simp_all

lemma count_module_destroy:
  "count_list (map (\<lambda>j. ModuleDestroy j a) [0..<n]) (ModuleDestroy j i) =
     (if a = i \<and> j < n then 1 else 0)"
  by (induction n) auto

lemma count_node_destroy_events_module:
  "count_list (node_destroy_events eng x) (ModuleDestroy j i) =
     (if vid x = i \<and> j < cbs_destroy (engine_cbs eng) then 1 else 0)"
  by (simp add: node_destroy_events_def count_module_destroy split: option.splits)

lemma count_hook_destroy_modules:
  "count_list (map (\<lambda>j. ModuleDestroy j a) [0..<n]) (HookDestroy i) = 0"
  by (induction n) auto

lemma count_node_destroy_events_own:
  "count_list (node_destroy_events eng x) (HookDestroy i) =
     (if vid x = i \<and> (case data_hook x of None \<Rightarrow> False | Some h \<Rightarrow> on_destroy h) then 1 else 0)"
  by (simp add: node_destroy_events_def count_hook_destroy_modules split: option.splits)

lemma sum_distinct_vid:
  "distinct (map vid xs) \<Longrightarrow> u \<in> set xs \<Longrightarrow>
     sum_list (map (\<lambda>x. if vid x = vid u \<and> Q x then 1 else 0) xs) = (if Q u then 1 else (0::nat))"
proof (induction xs)
  case Nil
  then show ?case by simp
next
  case (Cons x xs)
  show ?case
  proof (cases "x = u")
    case True
    from Cons.prems(1) have "vid x \<notin> vid ` set xs" by simp
    then have "\<forall>y \<in> set xs. vid y \<noteq> vid x" by (metis imageI)
    then have "sum_list (map (\<lambda>y. if vid y = vid u \<and> Q y then 1 else 0) xs) = (0::nat)"
      using True by (induction xs) auto
    with True show ?thesis by simp
  next
    case False
    with Cons.prems have u: "u \<in> set xs" and "vid x \<noteq> vid u" by auto
    with Cons.IH Cons.prems(1) show ?thesis by simp
  qed
qed

lemma removal_not_destroy: "removal_event ev \<Longrightarrow> \<not> is_destroy ev"
  by (cases ev rule: removal_event.cases) simp_all

text \<open>
  C2, as the code has it. \<open>invokeDestroyHook\<close> does something for a vnode only when its
  \<open>data\<close> is defined, and goes into the children only then: it visits the removed vnode
  if it has \<open>data\<close>, and the non-null children of a visited vnode that have \<open>data\<close>
  themselves (\<open>destroyed_nodes\<close>). When \<open>removeVnodes\<close> removes a vnode with a selector,
  what it adds to the trace starts with the \<open>destroy\<close> calls: for each visited vnode in
  turn its own \<open>destroy\<close> hook, if it has one, then every module \<open>destroy\<close> hook; what
  follows (the \<open>remove\<close> hooks and the detachment) holds no \<open>destroy\<close> call. When the
  visited vnodes are distinct objects, each of these calls is made exactly once for each
  of them.
\<close>

theorem destroy_hooks_before_remove_hooks:
  assumes "sel ch \<noteq> None"
  shows "\<exists>w. trace (state_of (removeVnodes eng parentElm [Some ch] 0 0 st)) =
               trace st @ concat (map (node_destroy_events eng) (destroyed_nodes ch)) @ w \<and>
             list_all removal_event w \<and> list_all (\<lambda>ev. \<not> is_destroy ev) w \<and>
             list_all is_destroy (concat (map (node_destroy_events eng) (destroyed_nodes ch))) \<and>
             (distinct (map vid (destroyed_nodes ch)) \<longrightarrow>
                (\<forall>u \<in> set (destroyed_nodes ch).
                   (\<forall>j < cbs_destroy (engine_cbs eng).
                      count_list (concat (map (node_destroy_events eng) (destroyed_nodes ch)))
                        (ModuleDestroy j (vid u)) = 1) \<and>
                   count_list (concat (map (node_destroy_events eng) (destroyed_nodes ch)))
                     (HookDestroy (vid u)) =
                   (if (case data_hook u of None \<Rightarrow> False | Some h \<Rightarrow> on_destroy h)
                    then 1 else 0)))"
proof -
  let ?D = "concat (map (node_destroy_events eng) (destroyed_nodes ch))"
  from removeVnode_trace [OF assms, of eng st parentElm]
  obtain w where w: "trace (state_of (removeVnode eng parentElm ch st)) = trace st @ ?D @ w"
    "list_all removal_event w"
    by (auto simp: emits_def emit_def)
  have nd: "list_all (\<lambda>ev. \<not> is_destroy ev) w"
    using w(2) by (auto simp: list_all_iff dest: removal_not_destroy)
  have d: "list_all is_destroy ?D"
    by (auto simp: list_all_iff dest: node_destroy_events_no_detach)
  have cnt: "count_list ?D (ModuleDestroy j (vid u)) = 1"
    if "distinct (map vid (destroyed_nodes ch))" "u \<in> set (destroyed_nodes ch)"
       "j < cbs_destroy (engine_cbs eng)" for u j
    using sum_distinct_vid [OF that(1,2), of "\<lambda>x. j < cbs_destroy (engine_cbs eng)"] that(3)
    by (simp add: count_list_concat_map count_node_destroy_events_module)
  have own: "count_list ?D (HookDestroy (vid u)) =
               (if (case data_hook u of None \<Rightarrow> False | Some h \<Rightarrow> on_destroy h) then 1 else 0)"
    if "distinct (map vid (destroyed_nodes ch))" "u \<in> set (destroyed_nodes ch)" for u
    using sum_distinct_vid [OF that(1,2),
        of "\<lambda>x. case data_hook x of None \<Rightarrow> False | Some h \<Rightarrow> on_destroy h"]
    by (simp add: count_list_concat_map count_node_destroy_events_own)
  from w nd d cnt own show ?thesis
    unfolding removeVnodes_single by blast
qed


theorem destroy_hooks_before_remove_hooks_witness:
  "sel (VNode (Ref 1) (Some ''p'') None (Some emptyData)
          (Some (Ref 5, [Some (VNode (Ref 2) (Some ''b'') None (Some emptyData) None None (Some 3)),
                         Some (VNode (Ref 3) None None None None (Some ''x'') (Some 4))]))
          None (Some 1)) \<noteq> None \<and>
   (\<exists>w. trace (state_of (removeVnodes
              (init [\<lparr>m_create = False, m_update = False, m_remove = None, m_destroy = True,
                      m_pre = False, m_post = False\<rparr>] False False)
              (Some 0)
              [Some (VNode (Ref 1) (Some ''p'') None (Some emptyData)
                 (Some (Ref 5, [Some (VNode (Ref 2) (Some ''b'') None (Some emptyData) None None (Some 3)),
                                Some (VNode (Ref 3) None None None None (Some ''x'') (Some 4))]))
                 None (Some 1))] 0 0 attached)) =
          [ModuleDestroy 0 (Ref 1), ModuleDestroy 0 (Ref 2)] @ w \<and>
        list_all removal_event w)"
proof -
  let ?ch = "VNode (Ref 1) (Some ''p'') None (Some emptyData)
          (Some (Ref 5, [Some (VNode (Ref 2) (Some ''b'') None (Some emptyData) None None (Some 3)),
                         Some (VNode (Ref 3) None None None None (Some ''x'') (Some 4))]))
          None (Some 1)"
  let ?eng = "init [\<lparr>m_create = False, m_update = False, m_remove = None, m_destroy = True,
                      m_pre = False, m_post = False\<rparr>] False False"
  have h: "sel ?ch \<noteq> None" by simp
  have d: "concat (map (node_destroy_events ?eng) (destroyed_nodes ?ch)) =
             [ModuleDestroy 0 (Ref 1), ModuleDestroy 0 (Ref 2)]"
    by (simp add: node_destroy_events_def init_def emptyData_def)
  have t: "trace attached = []" by (simp add: attached_def)
  from destroy_hooks_before_remove_hooks [OF h, of ?eng "Some 0" attached]
  show ?thesis unfolding d t using h by auto
qed

text \<open>
  C2 as stated fails: an engine with one module \<open>destroy\<close> hook removes an attached vnode
  with selector \<open>p\<close> and no \<open>data\<close>; the module hook is not called, the trace holds the
  detachment only.
\<close>

theorem destroy_hooks_unconditional_counterexample:
  "cbs_destroy (engine_cbs
     (init [\<lparr>m_create = False, m_update = False, m_remove = None, m_destroy = True,
             m_pre = False, m_post = False\<rparr>] False False)) = 1 \<and>
   sel (VNode (Ref 1) (Some ''p'') None None None None (Some 1)) = Some ''p'' \<and>
   trace (state_of (removeVnodes
            (init [\<lparr>m_create = False, m_update = False, m_remove = None, m_destroy = True,
                    m_pre = False, m_post = False\<rparr>] False False)
            (Some 0) [Some (VNode (Ref 1) (Some ''p'') None None None None (Some 1))] 0 0
            attached)) =
     [Api (RemoveChild (Some 0) (Some 1))]"
  by (simp add: removeVnodes_single removeVnode_def init_def createRmCb_def attached_def
      one_child_def hook_remove_of_def rmCb_def api_parentNode_def parentNode_def
      api_removeChild_def removeChild_def emit_def state_of_def Let_def)


section \<open>What each operation adds to the trace\<close>

lemma emits_bind:
  "emits P st (state_of r) \<Longrightarrow>
   (\<And>x s1. r = Inr (x, s1) \<Longrightarrow> emits P s1 (state_of (g (x, s1)))) \<Longrightarrow>
     emits P st (state_of (case r of Inl e \<Rightarrow> Inl e | Inr y \<Rightarrow> g y))"
  by (cases r) (auto simp: state_of_def intro: emits_trans split: prod.splits)

lemma emits_Inr [simp]: "emits P st (state_of (Inr (x, s))) = emits P st s"
  by (simp add: state_of_def)

lemma emits_Inl [simp]: "emits P st (state_of (Inl (x, s))) = emits P st s"
  by (simp add: state_of_def)

lemma emits_result:
  "emits P st (state_of r) \<Longrightarrow> r = Inr (x, s1) \<Longrightarrow> emits P st s1"
  by simp

lemma api_create_emits:
  "api_create c k t st = (n, st1) \<Longrightarrow> P (Api c) \<Longrightarrow> emits P st st1"
  by (auto simp: api_create_def emits_def emit_def split: prod.splits)

lemma api_setAttribute_emits:
  "P (Api (SetAttribute (Some n) a v)) \<Longrightarrow> emits P st (api_setAttribute n a v st)"
  by (simp add: api_setAttribute_def emits_def emit_def)

lemma set_sel_attrs_emits:
  "(\<And>a v. P (Api (SetAttribute (Some n) a v))) \<Longrightarrow> emits P st (set_sel_attrs s n st)"
  by (auto simp: set_sel_attrs_def Let_def
      intro: api_setAttribute_emits emits_trans [OF api_setAttribute_emits api_setAttribute_emits])

lemma api_appendChild_emits:
  "P (Api (AppendChild p n)) \<Longrightarrow> emits P st (state_of (api_appendChild p n st))"
  by (auto simp: api_appendChild_def emits_def emit_def state_of_def Let_def split: option.splits sum.splits)

lemma api_insertBefore_emits:
  "P (Api (InsertBefore p n r)) \<Longrightarrow> emits P st (state_of (api_insertBefore p n r st))"
  by (auto simp: api_insertBefore_def emits_def emit_def state_of_def Let_def split: option.splits sum.splits)

lemma api_setTextContent_emits:
  "P (Api (SetTextContent n t)) \<Longrightarrow> emits P st (state_of (api_setTextContent n t st))"
  by (auto simp: api_setTextContent_def emits_def emit_def state_of_def Let_def split: option.splits)

lemma api_nextSibling_emits: "emits P st (state_of (api_nextSibling n st))"
  by (auto simp: api_nextSibling_def split: option.splits)

lemma api_parentNode_emits: "emits P st (state_of (api_parentNode n st))"
  by (auto simp: api_parentNode_def split: option.splits)

lemma call_init_emits: "P (HookInit i) \<Longrightarrow> emits P st (call_init i d st)"
  by (auto simp: call_init_def intro: emits_emit split: option.splits)

lemma module_create_hooks_emits:
  "(\<And>j. P (ModuleCreate j Synthetic i)) \<Longrightarrow> emits P st (module_create_hooks eng i st)"
  by (auto simp: module_create_hooks_def list_all_iff intro!: emits_emit)

lemma own_create_hooks_emits:
  "P (HookCreate Synthetic (vid v)) \<Longrightarrow> emits P st (state_of (own_create_hooks v st))"
  by (auto simp: own_create_hooks_def emits_def emit_def state_of_def Let_def split: option.splits)


lemma emits_step: "emits P st s1 \<Longrightarrow> emits P s1 s2 \<Longrightarrow> emits P st s2"
  by (rule emits_trans)

lemma createElm_emits:
  "emits build_event st (state_of (createElm eng v st))"
  "emits build_event st (state_of (createElm_children eng n cs st))"
proof (induction eng v st and eng n cs st rule: createElm_createElm_children.induct)
  case (1 eng i s k d ch t e st)
  let ?st0 = "call_init i d st"
  have e0: "emits build_event st ?st0" by (rule call_init_emits) simp
  show ?case
  proof (cases "s = Some ''!''")
    case True
    then show ?thesis
      by (auto simp: Let_def split: prod.splits
          intro!: emits_trans [OF e0] intro: api_create_emits)
  next
    case False
    show ?thesis
    proof (cases s)
      case None
      show ?thesis
      proof (cases "if fragments eng then ch else None")
        case N: None
        with None show ?thesis
          by (auto simp: Let_def split: prod.splits
              intro!: emits_trans [OF e0] intro: api_create_emits)
      next
        case (Some acs)
        obtain a cs where acs: "acs = (a, cs)" by (cases acs)
        show ?thesis
        proof (cases "createDocumentFragment eng")
          case F: False
          with None Some acs e0 show ?thesis by simp
        next
          case T: True
          obtain n st1 where c: "api_create CreateDocumentFragment FragmentNode [] ?st0 = (n, st1)"
            by (cases "api_create CreateDocumentFragment FragmentNode [] ?st0")
          have e1: "emits build_event st st1"
            by (rule emits_trans [OF e0 api_create_emits [OF c]]) simp
          have e2: "emits build_event st (module_create_hooks eng i st1)"
            by (rule emits_trans [OF e1 module_create_hooks_emits]) simp
          have ih: "emits build_event (module_create_hooks eng i st1)
                      (state_of (createElm_children eng n cs (module_create_hooks eng i st1)))"
            by (rule "1.IH"(1)) (use False None Some acs T c in \<open>auto simp: c [symmetric]\<close>)
          from emits_trans [OF e2 ih] None Some acs T c show ?thesis
            by (auto simp: split: sum.splits)
        qed
      qed
    next
      case (Some sel0)
      let ?cr = "case data_ns d of
                   Some nsp \<Rightarrow> api_create (CreateElementNS nsp (sel_tag sel0))
                                 (ElementNode (sel_tag sel0) (Some nsp)) [] ?st0
                 | None \<Rightarrow> api_create (CreateElement (sel_tag sel0))
                             (ElementNode (sel_tag sel0) None) [] ?st0"
      obtain n st1 where c: "?cr = (n, st1)" by (cases ?cr)
      have e1: "emits build_event ?st0 st1"
        using c by (auto split: option.splits intro: api_create_emits)
      let ?st2 = "module_create_hooks eng i (set_sel_attrs sel0 n st1)"
      have e2: "emits build_event st ?st2"
        by (intro emits_trans [OF e0] emits_trans [OF e1]
            emits_trans [OF set_sel_attrs_emits module_create_hooks_emits]) simp_all
      let ?kids = "case ch of
                     Some (a, cs) \<Rightarrow>
                       (case createElm_children eng n cs ?st2 of
                          Inl x \<Rightarrow> Inl x
                        | Inr (cs1, st3) \<Rightarrow> Inr (Some (a, cs1), st3))
                   | None \<Rightarrow>
                       (case t of
                          Some t0 \<Rightarrow>
                            (case api_create (CreateTextNode t0) TextNode t0 ?st2 of
                               (c, st3) \<Rightarrow>
                                 (case api_appendChild (Some n) (Some c) st3 of
                                    Inl x \<Rightarrow> Inl x
                                  | Inr (u, st4) \<Rightarrow> Inr (None, st4)))
                        | None \<Rightarrow> Inr (None, ?st2))"
      have e3: "emits build_event ?st2 (state_of ?kids)"
      proof (cases ch)
        case N: None
        show ?thesis
        proof (cases t)
          case None
          with N show ?thesis by simp
        next
          case (Some t0)
          obtain c0 st3 where c3: "api_create (CreateTextNode t0) TextNode t0 ?st2 = (c0, st3)"
            by (cases "api_create (CreateTextNode t0) TextNode t0 ?st2")
          have a: "emits build_event ?st2 st3" by (rule api_create_emits [OF c3]) simp
          have b: "emits build_event st3 (state_of (api_appendChild (Some n) (Some c0) st3))"
            by (rule api_appendChild_emits) simp
          from emits_trans [OF a b] N Some c3 show ?thesis
            by (auto split: sum.splits)
        qed
      next
        case S: (Some acs)
        obtain a cs where acs: "acs = (a, cs)" by (cases acs)
        have "emits build_event ?st2 (state_of (createElm_children eng n cs ?st2))"
          by (rule "1.IH"(2)) (use False Some S acs c in \<open>auto simp: c [symmetric]\<close>)
        with S acs show ?thesis by (auto split: sum.splits)
      qed
      have fin: "createElm eng (VNode i s k d ch t e) st =
                   (case ?kids of
                      Inl x \<Rightarrow> Inl x
                    | Inr (ch1, st5) \<Rightarrow>
                        (case own_create_hooks (VNode i s k d ch1 t (Some n)) st5 of
                           Inl x \<Rightarrow> Inl x
                         | Inr (u, st6) \<Rightarrow> Inr (VNode i s k d ch1 t (Some n), st6)))"
        using False Some c by (simp add: Let_def cong: option.case_cong sum.case_cong)
      show ?thesis
      proof (cases ?kids)
        case (Inl x)
        with fin emits_trans [OF e2 e3] show ?thesis by (cases x) simp
      next
        case (Inr y)
        obtain ch1 st5 where y: "y = (ch1, st5)" by (cases y)
        from emits_trans [OF e2 e3] Inr y have e5: "emits build_event st st5" by simp
        have "emits build_event st5 (state_of (own_create_hooks (VNode i s k d ch1 t (Some n)) st5))"
          by (rule own_create_hooks_emits) simp
        from emits_trans [OF e5 this] fin Inr y show ?thesis
          by (auto split: sum.splits)
      qed
    qed
  qed
next
  case (2 eng n st)
  then show ?case by simp
next
  case (3 eng n c cs st)
  show ?case
  proof (cases c)
    case None
    with 3(1) show ?thesis
      by (auto split: sum.splits)
  next
    case (Some v)
    show ?thesis
    proof (cases "createElm eng v st")
      case (Inl x)
      with 3(2) [OF Some] Some show ?thesis by (cases x) simp
    next
      case (Inr y)
      obtain v1 st1 where y: "y = (v1, st1)" by (cases y)
      from 3(2) [OF Some] Inr y have e1: "emits build_event st st1" by simp
      have e2: "emits build_event st (state_of (api_appendChild (Some n) (elm v1) st1))"
        by (rule emits_trans [OF e1 api_appendChild_emits]) simp
      show ?thesis
      proof (cases "api_appendChild (Some n) (elm v1) st1")
        case L: (Inl x)
        with e2 Some Inr y show ?thesis by (cases x) simp
      next
        case R: (Inr z)
        obtain u st2 where z: "z = (u, st2)" by (cases z)
        from e2 R z have e2': "emits build_event st st2" by simp
        from 3(3) [OF Some Inr [unfolded y] refl R [unfolded z] refl]
        have "emits build_event st2 (state_of (createElm_children eng n cs st2))" .
        from emits_trans [OF e2' this] Some Inr y R z show ?thesis
          by (auto split: sum.splits)
      qed
    qed
  qed
qed


lemma createElm_binds_elm:
  "createElm eng v st = Inr (v1, st1) \<Longrightarrow> elm v1 \<noteq> None \<and> vid v1 = vid v"
  by (cases v)
     (auto simp: Let_def split: if_splits option.splits sum.splits prod.splits)

lemma build_patch_event: "build_event ev \<Longrightarrow> patch_event S ev"
  by (cases ev rule: build_event.cases) simp_all

lemma removal_patch_event: "removal_event ev \<Longrightarrow> patch_event S ev"
  by (cases ev rule: removal_event.cases) simp_all

lemma destroy_patch_event: "is_destroy ev \<Longrightarrow> patch_event S ev"
  by (cases ev rule: is_destroy.cases) simp_all

lemma patch_event_mono: "S \<subseteq> T \<Longrightarrow> patch_event S ev \<Longrightarrow> patch_event T ev"
  by (cases ev) auto

lemma vid_in_ids: "vid v \<in> set (ids v)"
  by (cases v) simp

lemma ids_children: "children v = Some (a, cs) \<Longrightarrow> set (ids_list cs) \<subseteq> set (ids v)"
  by (cases v) auto

lemma ids_list_member: "Some n \<in> set cs \<Longrightarrow> set (ids n) \<subseteq> set (ids_list cs)"
  by (induction cs) (auto split: option.splits)

lemma slot_member: "slot xs i = Some x \<Longrightarrow> Some x \<in> set xs"
  by (auto simp: slot_def split: if_splits) (metis nth_mem nat_less_iff nat_int)

lemma ids_slot: "slot cs j = Some n \<Longrightarrow> set (ids n) \<subseteq> set (ids_list cs)"
  by (rule ids_list_member [OF slot_member])

lemma createElm_patch_event: "emits (patch_event S) st (state_of (createElm eng v st))"
  by (rule emits_mono [OF createElm_emits(1)]) (rule build_patch_event)

lemma addVnodes_emits:
  "emits (patch_event S) st (state_of (addVnodes eng p b vs i j st))"
proof (induction eng p b vs i j st rule: addVnodes.induct)
  case (1 eng parentElm before vnodes startIdx endIdx st)
  show ?case
  proof (cases "startIdx \<le> endIdx")
    case False
    then show ?thesis by (subst addVnodes.simps) simp
  next
    case True
    show ?thesis
    proof (cases "slot vnodes startIdx")
      case None
      with True "1.IH"(1) show ?thesis by (subst addVnodes.simps) simp
    next
      case (Some ch)
      show ?thesis
      proof (cases "createElm eng ch st")
        case (Inl x)
        with True Some createElm_patch_event [of S st eng ch] show ?thesis
          by (subst addVnodes.simps) (cases x, simp)
      next
        case (Inr y)
        obtain ch1 st1 where y: "y = (ch1, st1)" by (cases y)
        from createElm_patch_event [of S st eng ch] Inr y
        have e1: "emits (patch_event S) st st1" by simp
        have e2: "emits (patch_event S) st (state_of (api_insertBefore parentElm (elm ch1) before st1))"
          by (rule emits_trans [OF e1 api_insertBefore_emits]) simp
        show ?thesis
        proof (cases "api_insertBefore parentElm (elm ch1) before st1")
          case L: (Inl x)
          with True Some Inr y e2 show ?thesis
            by (subst addVnodes.simps) (cases x, simp)
        next
          case R: (Inr z)
          obtain u st2 where z: "z = (u, st2)" by (cases z)
          from e2 R z have "emits (patch_event S) st st2" by simp
          from emits_trans [OF this "1.IH"(2) [OF True Some Inr [unfolded y] refl R [unfolded z] refl]]
          show ?thesis using True Some Inr y R z by (subst addVnodes.simps) simp
        qed
      qed
    qed
  qed
qed

lemma removeVnode_emits:
  "emits (patch_event S) st (state_of (removeVnode eng p ch st))"
proof (cases "sel ch \<noteq> None")
  case True
  have "emits (patch_event S) st
          (emit (concat (map (node_destroy_events eng) (destroyed_nodes ch))) st)"
    by (rule emits_emit)
       (auto simp: list_all_iff dest!: node_destroy_events_no_detach intro: destroy_patch_event)
  from emits_trans [OF this emits_mono [OF removeVnode_trace [OF True]]]
  show ?thesis by (simp add: removal_patch_event)
next
  case False
  have "emits (patch_event S) st (state_of (api_removeChild p (elm ch) st))"
    by (rule emits_mono [OF api_removeChild_emits]) (rule removal_patch_event)
  with False show ?thesis by (simp add: removeVnode_def)
qed

lemma removeVnodes_emits:
  "emits (patch_event S) st (state_of (removeVnodes eng p vs i j st))"
proof (induction eng p vs i j st rule: removeVnodes.induct)
  case (1 eng parentElm vnodes startIdx endIdx st)
  show ?case
  proof (cases "startIdx \<le> endIdx")
    case False
    then show ?thesis by (subst removeVnodes.simps) simp
  next
    case True
    show ?thesis
    proof (cases "slot vnodes startIdx")
      case None
      with True "1.IH"(1) show ?thesis by (subst removeVnodes.simps) simp
    next
      case (Some ch)
      show ?thesis
      proof (cases "removeVnode eng parentElm ch st")
        case (Inl x)
        with True Some removeVnode_emits [of S st eng parentElm ch] show ?thesis
          by (subst removeVnodes.simps) (cases x, simp)
      next
        case (Inr y)
        obtain u st1 where y: "y = (u, st1)" by (cases y)
        from removeVnode_emits [of S st eng parentElm ch] Inr y
        have e1: "emits (patch_event S) st st1" by simp
        from emits_trans [OF e1 "1.IH"(2) [OF True Some Inr [unfolded y] refl]]
        show ?thesis using True Some Inr y by (subst removeVnodes.simps) simp
      qed
    qed
  qed
qed


section \<open>What a patch adds to the trace\<close>

lemma prepatch_hook_emits:
  "vid vnode \<in> S \<Longrightarrow> emits (patch_event S) st (prepatch_hook oldVnode vnode st)"
  by (auto simp: prepatch_hook_def intro: emits_emit split: option.splits)

lemma postpatch_hook_emits:
  "vid vnode \<in> S \<Longrightarrow> emits (patch_event S) st (postpatch_hook oldVnode vnode st)"
  by (auto simp: postpatch_hook_def intro: emits_emit split: option.splits)

lemma update_hooks_emits:
  "vid vnode \<in> S \<Longrightarrow> emits (patch_event S) st (update_hooks eng oldVnode vnode st)"
  by (auto simp: update_hooks_def Let_def list_all_iff
      intro!: emits_emit emits_trans [OF emits_emit emits_emit] split: option.splits)

lemma api_setTextContent_patch_event:
  "emits (patch_event S) st (state_of (api_setTextContent n t st))"
  by (rule api_setTextContent_emits) simp

lemma api_insertBefore_patch_event:
  "emits (patch_event S) st (state_of (api_insertBefore p n r st))"
  by (rule api_insertBefore_emits) simp

lemma emits_bind2:
  "emits P st (state_of r) \<Longrightarrow>
   (\<And>x s1. r = Inr (x, s1) \<Longrightarrow> emits P s1 (state_of (h x s1))) \<Longrightarrow>
     emits P st (state_of (case r of Inl e \<Rightarrow> Inl e | Inr (x, s1) \<Rightarrow> h x s1))"
  by (cases r) (auto intro: emits_trans)

lemma patch_content_emits:
  "emits (patch_event S) st (state_of (patch_content eng oldVnode vnode st))"
  unfolding patch_content_def
  by (auto split: option.splits prod.splits
      intro!: emits_bind2 api_setTextContent_patch_event addVnodes_emits removeVnodes_emits)

lemma insert_new_emits:
  "emits (patch_event S) st (state_of (insert_new eng p n ov v st))"
  unfolding insert_new_def
  by (auto intro!: emits_bind2 createElm_patch_event api_insertBefore_patch_event)

lemma uc_finish_emits:
  "emits (patch_event S) st (state_of (uc_finish eng p v st))"
  unfolding uc_finish_def
  by (auto intro!: emits_bind2 addVnodes_emits removeVnodes_emits)


lemma set_elm_fields [simp]:
  "vid (set_elm e v) = vid v" "children (set_elm e v) = children v"
  "vtext (set_elm e v) = vtext v" "data (set_elm e v) = data v" "elm (set_elm e v) = e"
  "sel (set_elm e v) = sel v" "key (set_elm e v) = key v"
  by (cases v; simp)+

lemma default_data_fields [simp]:
  "vid (default_data v) = vid v" "children (default_data v) = children v"
  "vtext (default_data v) = vtext v" "elm (default_data v) = elm v"
  "sel (default_data v) = sel v" "key (default_data v) = key v"
  by (cases v; simp)+

lemma emits_bind3:
  "emits P st (state_of r) \<Longrightarrow>
   (\<And>a b s1. r = Inr ((a, b), s1) \<Longrightarrow> emits P s1 (state_of (h a b s1))) \<Longrightarrow>
     emits P st (state_of (case r of Inl e \<Rightarrow> Inl e | Inr ((a, b), s1) \<Rightarrow> h a b s1))"
  by (cases r) (auto intro: emits_trans)

subsection \<open>The loop of \<open>updateChildren\<close>, branch by branch\<close>

lemma loop_done:
  "\<not> (oldStartIdx v \<le> oldEndIdx v \<and> newStartIdx v \<le> newEndIdx v) \<Longrightarrow>
     updateChildren_loop eng p ch0 v st = uc_finish eng p v st"
  by (subst updateChildren_loop.simps) (rule if_not_P)

lemma loop_skip_oldStart:
  "oldStartIdx v \<le> oldEndIdx v \<Longrightarrow> newStartIdx v \<le> newEndIdx v \<Longrightarrow>
   oldStartVnode v = None \<Longrightarrow>
     updateChildren_loop eng p ch0 v st = updateChildren_loop eng p ch0 (inc_oldStart v) st"
  by (subst updateChildren_loop.simps) simp

lemma loop_skip_oldEnd:
  "oldStartIdx v \<le> oldEndIdx v \<Longrightarrow> newStartIdx v \<le> newEndIdx v \<Longrightarrow>
   oldStartVnode v = Some osv \<Longrightarrow> oldEndVnode v = None \<Longrightarrow>
     updateChildren_loop eng p ch0 v st = updateChildren_loop eng p ch0 (dec_oldEnd v) st"
  by (subst updateChildren_loop.simps) simp

lemma loop_skip_newStart:
  "oldStartIdx v \<le> oldEndIdx v \<Longrightarrow> newStartIdx v \<le> newEndIdx v \<Longrightarrow>
   oldStartVnode v = Some osv \<Longrightarrow> oldEndVnode v = Some oev \<Longrightarrow>
   slot ch0 (newStartIdx v) = None \<Longrightarrow>
     updateChildren_loop eng p ch0 v st = updateChildren_loop eng p ch0 (inc_newStart v) st"
  by (subst updateChildren_loop.simps) simp

lemma loop_skip_newEnd:
  "oldStartIdx v \<le> oldEndIdx v \<Longrightarrow> newStartIdx v \<le> newEndIdx v \<Longrightarrow>
   oldStartVnode v = Some osv \<Longrightarrow> oldEndVnode v = Some oev \<Longrightarrow>
   slot ch0 (newStartIdx v) = Some nsv \<Longrightarrow> slot ch0 (newEndIdx v) = None \<Longrightarrow>
     updateChildren_loop eng p ch0 v st = updateChildren_loop eng p ch0 (dec_newEnd v) st"
  by (subst updateChildren_loop.simps) simp

lemma loop_same_start:
  "oldStartIdx v \<le> oldEndIdx v \<Longrightarrow> newStartIdx v \<le> newEndIdx v \<Longrightarrow>
   oldStartVnode v = Some osv \<Longrightarrow> oldEndVnode v = Some oev \<Longrightarrow>
   slot ch0 (newStartIdx v) = Some nsv \<Longrightarrow> slot ch0 (newEndIdx v) = Some nev \<Longrightarrow>
   sameVnode osv nsv \<Longrightarrow>
     updateChildren_loop eng p ch0 v st =
       (case patchVnode eng osv nsv st of
          Inl x \<Rightarrow> Inl x
        | Inr ((o1, n1), st1) \<Rightarrow>
            updateChildren_loop eng p ch0
              (inc_newStart (inc_oldStart
                 (put_old (oldStartIdx v) o1 (put_new (newStartIdx v) n1 v)))) st1)"
  by (subst updateChildren_loop.simps) simp

lemma loop_same_end:
  "oldStartIdx v \<le> oldEndIdx v \<Longrightarrow> newStartIdx v \<le> newEndIdx v \<Longrightarrow>
   oldStartVnode v = Some osv \<Longrightarrow> oldEndVnode v = Some oev \<Longrightarrow>
   slot ch0 (newStartIdx v) = Some nsv \<Longrightarrow> slot ch0 (newEndIdx v) = Some nev \<Longrightarrow>
   \<not> sameVnode osv nsv \<Longrightarrow> sameVnode oev nev \<Longrightarrow>
     updateChildren_loop eng p ch0 v st =
       (case patchVnode eng oev nev st of
          Inl x \<Rightarrow> Inl x
        | Inr ((o1, n1), st1) \<Rightarrow>
            updateChildren_loop eng p ch0
              (dec_newEnd (dec_oldEnd
                 (put_old (oldEndIdx v) o1 (put_new (newEndIdx v) n1 v)))) st1)"
  by (subst updateChildren_loop.simps) simp

lemma loop_moved_right:
  "oldStartIdx v \<le> oldEndIdx v \<Longrightarrow> newStartIdx v \<le> newEndIdx v \<Longrightarrow>
   oldStartVnode v = Some osv \<Longrightarrow> oldEndVnode v = Some oev \<Longrightarrow>
   slot ch0 (newStartIdx v) = Some nsv \<Longrightarrow> slot ch0 (newEndIdx v) = Some nev \<Longrightarrow>
   \<not> sameVnode osv nsv \<Longrightarrow> \<not> sameVnode oev nev \<Longrightarrow> sameVnode osv nev \<Longrightarrow>
     updateChildren_loop eng p ch0 v st =
       (case patchVnode eng osv nev st of
          Inl x \<Rightarrow> Inl x
        | Inr ((o1, n1), st1) \<Rightarrow>
            (case api_nextSibling (elm oev) st1 of
               Inl x \<Rightarrow> Inl x
             | Inr (sib, st2) \<Rightarrow>
                 (case api_insertBefore p (elm osv) sib st2 of
                    Inl x \<Rightarrow> Inl x
                  | Inr (u, st3) \<Rightarrow>
                      updateChildren_loop eng p ch0
                        (dec_newEnd (inc_oldStart
                           (put_old (oldStartIdx v) o1 (put_new (newEndIdx v) n1 v)))) st3)))"
  by (subst updateChildren_loop.simps) simp

lemma loop_moved_left:
  "oldStartIdx v \<le> oldEndIdx v \<Longrightarrow> newStartIdx v \<le> newEndIdx v \<Longrightarrow>
   oldStartVnode v = Some osv \<Longrightarrow> oldEndVnode v = Some oev \<Longrightarrow>
   slot ch0 (newStartIdx v) = Some nsv \<Longrightarrow> slot ch0 (newEndIdx v) = Some nev \<Longrightarrow>
   \<not> sameVnode osv nsv \<Longrightarrow> \<not> sameVnode oev nev \<Longrightarrow> \<not> sameVnode osv nev \<Longrightarrow>
   sameVnode oev nsv \<Longrightarrow>
     updateChildren_loop eng p ch0 v st =
       (case patchVnode eng oev nsv st of
          Inl x \<Rightarrow> Inl x
        | Inr ((o1, n1), st1) \<Rightarrow>
            (case api_insertBefore p (elm oev) (elm osv) st1 of
               Inl x \<Rightarrow> Inl x
             | Inr (u, st2) \<Rightarrow>
                 updateChildren_loop eng p ch0
                   (inc_newStart (dec_oldEnd
                      (put_old (oldEndIdx v) o1 (put_new (newStartIdx v) n1 v)))) st2))"
  by (subst updateChildren_loop.simps) simp

lemma loop_keyed:
  "oldStartIdx v \<le> oldEndIdx v \<Longrightarrow> newStartIdx v \<le> newEndIdx v \<Longrightarrow>
   oldStartVnode v = Some osv \<Longrightarrow> oldEndVnode v = Some oev \<Longrightarrow>
   slot ch0 (newStartIdx v) = Some nsv \<Longrightarrow> slot ch0 (newEndIdx v) = Some nev \<Longrightarrow>
   \<not> sameVnode osv nsv \<Longrightarrow> \<not> sameVnode oev nev \<Longrightarrow> \<not> sameVnode osv nev \<Longrightarrow>
   \<not> sameVnode oev nsv \<Longrightarrow>
     updateChildren_loop eng p ch0 v st =
       (case obj_get (the_key_map v) (key_name nsv) of
          Undefined \<Rightarrow>
            (case insert_new eng p nsv osv (v\<lparr>oldKeyToIdx := Some (the_key_map v)\<rparr>) st of
               Inl x \<Rightarrow> Inl x
             | Inr (v2, st1) \<Rightarrow> updateChildren_loop eng p ch0 (inc_newStart v2) st1)
        | Inherited \<Rightarrow> Inl (TypeError, st)
        | Index idxInOld \<Rightarrow>
            (case slot (oldCh v) idxInOld of
               None \<Rightarrow> Inl (TypeError, st)
             | Some elmToMove \<Rightarrow>
                 if sel elmToMove \<noteq> sel nsv then
                   (case insert_new eng p nsv osv (v\<lparr>oldKeyToIdx := Some (the_key_map v)\<rparr>) st of
                      Inl x \<Rightarrow> Inl x
                    | Inr (v2, st1) \<Rightarrow> updateChildren_loop eng p ch0 (inc_newStart v2) st1)
                 else
                   (case patchVnode eng elmToMove nsv st of
                      Inl x \<Rightarrow> Inl x
                    | Inr ((o1, n1), st1) \<Rightarrow>
                        (case api_insertBefore p (elm elmToMove) (elm osv) st1 of
                           Inl x \<Rightarrow> Inl x
                         | Inr (u, st2) \<Rightarrow>
                             updateChildren_loop eng p ch0
                               (inc_newStart (clear_old idxInOld
                                  (put_old idxInOld o1
                                     (put_new (newStartIdx v) n1
                                        (v\<lparr>oldKeyToIdx := Some (the_key_map v)\<rparr>)))))
                               st2))))"
  by (subst updateChildren_loop.simps)
     (simp add: Let_def cong: option.case_cong sum.case_cong if_cong lookup.case_cong)


subsection \<open>The events of \<open>patchVnode\<close> and \<open>updateChildren\<close>\<close>

lemma patch_emits_sub:
  "set (ids vnode) \<subseteq> T \<Longrightarrow>
     emits (patch_event T) st (state_of (patchVnode eng oldVnode vnode st))"
  "set (ids_list newCh0) \<subseteq> T \<Longrightarrow>
     emits (patch_event T) st (state_of (updateChildren eng parentElm oldCh0 newCh0 st))"
  "set (ids_list ch0) \<subseteq> T \<Longrightarrow>
     emits (patch_event T) st (state_of (updateChildren_loop eng parentElm ch0 v st))"
proof (induction eng oldVnode vnode st and eng parentElm oldCh0 newCh0 st
    and eng parentElm ch0 v st arbitrary: T and T and T
    rule: patchVnode_updateChildren_updateChildren_loop.induct)
  case (1 eng oldVnode vnode st)
  have v: "vid vnode \<in> T" using "1.prems" vid_in_ids [of vnode] by auto
  let ?st1 = "prepatch_hook oldVnode vnode st"
  have e1: "emits (patch_event T) st ?st1" by (rule prepatch_hook_emits [OF v])
  show ?case
  proof (cases "vid oldVnode = vid vnode")
    case True
    with e1 show ?thesis by (subst patchVnode.simps) (simp add: Let_def)
  next
    case False
    let ?upd = "update_needed oldVnode vnode"
    let ?vnode1 = "set_elm (elm oldVnode) vnode"
    let ?vnode2 = "if ?upd then default_data ?vnode1 else ?vnode1"
    let ?old2 = "if ?upd then default_data oldVnode else oldVnode"
    let ?st2 = "if ?upd then update_hooks eng ?old2 ?vnode2 ?st1 else ?st1"
    let ?R = "case (vtext vnode, children oldVnode, children vnode) of
                (None, Some (oa, ocs), Some (a, cs)) \<Rightarrow>
                  if oa \<noteq> a then
                    (case updateChildren eng (elm ?vnode2) ocs cs ?st2 of
                       Inl x \<Rightarrow> Inl x
                     | Inr ((ocs1, cs1), st3) \<Rightarrow>
                         Inr ((set_children (Some (oa, ocs1)) ?old2,
                               set_children (Some (a, cs1)) ?vnode2), st3))
                  else Inr ((?old2, ?vnode2), ?st2)
              | _ \<Rightarrow> patch_content eng ?old2 ?vnode2 ?st2"
    have e2: "emits (patch_event T) st ?st2"
      using e1 v by (auto intro: emits_trans [OF e1 update_hooks_emits])
    have eR: "emits (patch_event T) ?st2 (state_of ?R)"
    proof (cases "vtext vnode")
      case (Some t)
      then show ?thesis by (simp add: patch_content_emits)
    next
      case None
      show ?thesis
      proof (cases "children oldVnode")
        case N: None
        with None show ?thesis by (simp add: patch_content_emits)
      next
        case (Some oacs)
        obtain oa ocs where oacs: "oacs = (oa, ocs)" by (cases oacs)
        show ?thesis
        proof (cases "children vnode")
          case N: None
          with None Some oacs show ?thesis by (simp add: patch_content_emits)
        next
          case S: (Some acs)
          obtain a cs where acs: "acs = (a, cs)" by (cases acs)
          show ?thesis
          proof (cases "oa = a")
            case True
            with None Some oacs S acs show ?thesis by simp
          next
            case ne: False
            have sub: "set (ids_list cs) \<subseteq> T"
              using ids_children [of vnode a cs] S acs "1.prems" by auto
            have "emits (patch_event T) ?st2
                    (state_of (updateChildren eng (elm ?vnode2) ocs cs ?st2))"
              by (rule "1.IH" [OF refl refl False refl refl refl refl _ _ _ _ _ _ _ ne sub])
                 (use None Some oacs S acs in \<open>auto\<close>)
            with None Some oacs S acs ne show ?thesis
              by (auto split: sum.splits)
          qed
        qed
      qed
    qed
    have fin: "patchVnode eng oldVnode vnode st =
                 (case ?R of
                    Inl x \<Rightarrow> Inl x
                  | Inr ((old3, vnode3), st4) \<Rightarrow>
                      Inr ((old3, vnode3), postpatch_hook oldVnode vnode st4))"
      using False by (subst patchVnode.simps) (simp add: Let_def)
    show ?thesis
      unfolding fin
      by (rule emits_trans [OF e2 emits_bind3 [OF eR]])
         (simp add: postpatch_hook_emits [OF v])
  qed
next
  case (2 eng parentElm oldCh0 newCh0 st)
  then show ?case by (subst updateChildren.simps) simp
next
  case (3 eng p ch0 v st)
  note T = "3.prems"
  show ?case
  proof (cases "oldStartIdx v \<le> oldEndIdx v \<and> newStartIdx v \<le> newEndIdx v")
    case False
    then show ?thesis by (simp add: loop_done uc_finish_emits)
  next
    case g: True
    then have g1: "oldStartIdx v \<le> oldEndIdx v" and g2: "newStartIdx v \<le> newEndIdx v"
      by simp_all
    show ?thesis
    proof (cases "oldStartVnode v")
      case None
      with "3.IH"(1) [OF g None T] show ?thesis by (simp add: loop_skip_oldStart [OF g1 g2])
    next
      case os: (Some osv)
      show ?thesis
      proof (cases "oldEndVnode v")
        case None
        with "3.IH"(2) [OF g os None T] show ?thesis
          by (simp add: loop_skip_oldEnd [OF g1 g2 os])
      next
        case oe: (Some oev)
        show ?thesis
        proof (cases "slot ch0 (newStartIdx v)")
          case None
          with "3.IH"(3) [OF g os oe None T] show ?thesis
            by (simp add: loop_skip_newStart [OF g1 g2 os oe])
        next
          case ns: (Some nsv)
          have nsT: "set (ids nsv) \<subseteq> T" using ids_slot [OF ns] T by auto
          show ?thesis
          proof (cases "slot ch0 (newEndIdx v)")
            case None
            with "3.IH"(4) [OF g os oe ns None T] show ?thesis
              by (simp add: loop_skip_newEnd [OF g1 g2 os oe ns])
          next
            case ne: (Some nev)
            have neT: "set (ids nev) \<subseteq> T" using ids_slot [OF ne] T by auto
            show ?thesis
            proof (cases "sameVnode osv nsv")
              case s1: True
              show ?thesis
                unfolding loop_same_start [OF g1 g2 os oe ns ne s1]
                by (rule emits_bind3 [OF "3.IH"(5) [OF g os oe ns ne s1 nsT]])
                   (rule "3.IH"(6) [OF g os oe ns ne s1 _ refl refl T], assumption)
            next
              case s1: False
              show ?thesis
              proof (cases "sameVnode oev nev")
                case s2: True
                show ?thesis
                  unfolding loop_same_end [OF g1 g2 os oe ns ne s1 s2]
                  by (rule emits_bind3 [OF "3.IH"(7) [OF g os oe ns ne s1 s2 neT]])
                     (rule "3.IH"(8) [OF g os oe ns ne s1 s2 _ refl refl T], assumption)
              next
                case s2: False
                show ?thesis
                proof (cases "sameVnode osv nev")
                  case s3: True
                  show ?thesis
                    unfolding loop_moved_right [OF g1 g2 os oe ns ne s1 s2 s3]
                    apply (rule emits_bind3 [OF "3.IH"(9) [OF g os oe ns ne s1 s2 s3 neT]])
                    apply (rule emits_bind2 [OF api_nextSibling_emits])
                    apply (rule emits_bind2 [OF api_insertBefore_patch_event])
                    apply (rule "3.IH"(10) [OF g os oe ns ne s1 s2 s3 _ refl refl _ refl _ refl T])
                      apply assumption+
                    done
                next
                  case s3: False
                  show ?thesis
                  proof (cases "sameVnode oev nsv")
                    case s4: True
                    show ?thesis
                      unfolding loop_moved_left [OF g1 g2 os oe ns ne s1 s2 s3 s4]
                      apply (rule emits_bind3 [OF "3.IH"(11) [OF g os oe ns ne s1 s2 s3 s4 nsT]])
                      apply (rule emits_bind2 [OF api_insertBefore_patch_event])
                      apply (rule "3.IH"(12) [OF g os oe ns ne s1 s2 s3 s4 _ refl refl _ refl T])
                       apply assumption+
                      done
                  next
                    case s4: False
                    let ?v1 = "v\<lparr>oldKeyToIdx := Some (the_key_map v)\<rparr>"
                    have ins: "emits (patch_event T) st
                        (state_of (case insert_new eng p nsv osv ?v1 st of
                           Inl x \<Rightarrow> Inl x
                         | Inr (v2, st1) \<Rightarrow> updateChildren_loop eng p ch0 (inc_newStart v2) st1))"
                      if "obj_get (the_key_map v) (key_name nsv) = Undefined \<or>
                          (\<exists>i e. obj_get (the_key_map v) (key_name nsv) = Index i \<and>
                             slot (oldCh ?v1) i = Some e \<and> sel e \<noteq> sel nsv)"
                      using that
                    proof
                      assume k: "obj_get (the_key_map v) (key_name nsv) = Undefined"
                      show ?thesis
                        by (rule emits_bind2 [OF insert_new_emits])
                           (rule "3.IH"(13) [OF g os oe ns ne s1 s2 s3 s4 refl k _ refl T],
                            assumption)
                    next
                      assume "\<exists>i e. obj_get (the_key_map v) (key_name nsv) = Index i \<and>
                             slot (oldCh ?v1) i = Some e \<and> sel e \<noteq> sel nsv"
                      then obtain i e where k: "obj_get (the_key_map v) (key_name nsv) = Index i"
                        and sl: "slot (oldCh ?v1) i = Some e" and d: "sel e \<noteq> sel nsv"
                        by blast
                      show ?thesis
                        by (rule emits_bind2 [OF insert_new_emits])
                           (rule "3.IH"(14) [OF g os oe ns ne s1 s2 s3 s4 refl k sl d _ refl T],
                            assumption)
                    qed
                    show ?thesis
                    proof (cases "obj_get (the_key_map v) (key_name nsv)")
                      case Undefined
                      with ins show ?thesis
                        unfolding loop_keyed [OF g1 g2 os oe ns ne s1 s2 s3 s4] by simp
                    next
                      case Inherited
                      then show ?thesis
                        unfolding loop_keyed [OF g1 g2 os oe ns ne s1 s2 s3 s4] by simp
                    next
                      case k: (Index i)
                      show ?thesis
                      proof (cases "slot (oldCh v) i")
                        case None
                        with k show ?thesis
                          unfolding loop_keyed [OF g1 g2 os oe ns ne s1 s2 s3 s4] by simp
                      next
                        case sl: (Some e)
                        then have sl1: "slot (oldCh ?v1) i = Some e" by simp
                        show ?thesis
                        proof (cases "sel e \<noteq> sel nsv")
                          case True
                          with ins k sl sl1 show ?thesis
                            unfolding loop_keyed [OF g1 g2 os oe ns ne s1 s2 s3 s4] by auto
                        next
                          case d: False
                          have "emits (patch_event T) st
                            (state_of (case patchVnode eng e nsv st of
                               Inl x \<Rightarrow> Inl x
                             | Inr ((o1, n1), st1) \<Rightarrow>
                                 (case api_insertBefore p (elm e) (elm osv) st1 of
                                    Inl x \<Rightarrow> Inl x
                                  | Inr (u, st2) \<Rightarrow>
                                      updateChildren_loop eng p ch0
                                        (inc_newStart (clear_old i
                                           (put_old i o1 (put_new (newStartIdx ?v1) n1 ?v1))))
                                        st2)))"
                            apply (rule emits_bind3
                                [OF "3.IH"(15) [OF g os oe ns ne s1 s2 s3 s4 refl k sl1 d nsT]])
                            apply (rule emits_bind2 [OF api_insertBefore_patch_event])
                            apply (rule "3.IH"(16)
                                [OF g os oe ns ne s1 s2 s3 s4 refl k sl1 d _ refl refl _ refl T])
                             apply assumption+
                            done
                          with k sl d show ?thesis
                            unfolding loop_keyed [OF g1 g2 os oe ns ne s1 s2 s3 s4]
                            by (simp cong: sum.case_cong)
                        qed
                      qed
                    qed
                  qed
                qed
              qed
            qed
          qed
        qed
      qed
    qed
  qed
qed


section \<open>The update hooks\<close>

declare data_hook.simps [simp del]

lemma patched_fields [simp]:
  "vid (patched_new oldVnode vnode) = vid vnode"
  "children (patched_new oldVnode vnode) = children vnode"
  "vtext (patched_new oldVnode vnode) = vtext vnode"
  "elm (patched_new oldVnode vnode) = elm oldVnode"
  "vid (patched_old oldVnode vnode) = vid oldVnode"
  "children (patched_old oldVnode vnode) = children oldVnode"
  "vtext (patched_old oldVnode vnode) = vtext oldVnode"
  "elm (patched_old oldVnode vnode) = elm oldVnode"
  by (simp_all add: patched_new_def patched_old_def)

lemma data_hook_default [simp]: "data_hook (default_data v) = data_hook v"
  by (cases v) (simp add: data_hook.simps emptyData_def split: option.splits)

lemma data_hook_set_elm [simp]: "data_hook (set_elm e v) = data_hook v"
  by (cases v) (simp add: data_hook.simps)

lemma patchVnode_phases:
  assumes "vid oldVnode \<noteq> vid vnode"
  shows "patchVnode eng oldVnode vnode st =
           (case content_phase eng (patched_old oldVnode vnode) (patched_new oldVnode vnode)
                   (emit (own_hook_events vnode on_prepatch (HookPrepatch (vid oldVnode) (vid vnode)) @
                          (if update_needed oldVnode vnode then update_events eng oldVnode vnode
                           else [])) st) of
              Inl x \<Rightarrow> Inl x
            | Inr ((old3, vnode3), st4) \<Rightarrow>
                Inr ((old3, vnode3),
                     emit (own_hook_events vnode on_postpatch
                             (HookPostpatch (vid oldVnode) (vid vnode))) st4))"
proof -
  have pre: "prepatch_hook oldVnode vnode st =
               emit (own_hook_events vnode on_prepatch (HookPrepatch (vid oldVnode) (vid vnode))) st"
    by (simp add: prepatch_hook_def own_hook_events_def split: option.splits)
  have post: "postpatch_hook oldVnode vnode s =
               emit (own_hook_events vnode on_postpatch (HookPostpatch (vid oldVnode) (vid vnode))) s"
    for s
    by (simp add: postpatch_hook_def own_hook_events_def split: option.splits)
  have upd: "update_hooks eng (default_data oldVnode) (default_data (set_elm (elm oldVnode) vnode)) s =
               emit (update_events eng oldVnode vnode) s" for s
    by (simp add: update_hooks_def update_events_def own_hook_events_def Let_def
        split: option.splits)
  have neq: "(vid oldVnode = vid vnode) = False" using assms by simp
  show ?thesis
  proof (cases "update_needed oldVnode vnode")
    case True
    then have t: "update_needed oldVnode vnode = True" by simp
    show ?thesis
      unfolding content_phase_def patched_new_def patched_old_def
      by (subst patchVnode.simps)
         (simp only: Let_def neq t if_False if_True pre post upd emit_emit
            set_elm_fields default_data_fields)
  next
    case False
    then have f: "update_needed oldVnode vnode = False" by simp
    show ?thesis
      unfolding content_phase_def patched_new_def patched_old_def
      by (subst patchVnode.simps)
         (simp only: Let_def neq f if_False if_True pre post upd emit_emit append_Nil2
            set_elm_fields default_data_fields)
  qed
qed

lemma content_phase_emits:
  assumes "\<And>a cs. children vnode2 = Some (a, cs) \<Longrightarrow> set (ids_list cs) \<subseteq> T"
  shows "emits (patch_event T) st2 (state_of (content_phase eng old2 vnode2 st2))"
proof -
  have "emits (patch_event T) st2
          (state_of (case updateChildren eng (elm vnode2) ocs cs st2 of
                       Inl x \<Rightarrow> Inl x
                     | Inr ((ocs1, cs1), st3) \<Rightarrow>
                         Inr ((set_children (Some (oa, ocs1)) old2,
                               set_children (Some (a, cs1)) vnode2), st3)))"
    if "children vnode2 = Some (a, cs)" for oa ocs a cs
    by (rule emits_bind3 [OF patch_emits_sub(2) [OF assms [OF that]]]) simp
  then show ?thesis
    by (auto simp: content_phase_def patch_content_emits split: option.splits)
qed

lemma trace_emit [simp]: "trace (emit es s) = trace s @ es"
  by (simp add: emit_def)

lemma patch_event_not_target:
  "patch_event T ev \<Longrightarrow> i \<notin> T \<Longrightarrow> update_target ev \<noteq> Some i"
  by (cases ev) auto

text \<open>
  C6. \<open>patchVnode\<close> on two distinct vnode objects, the new one not among its own
  descendants. What it adds to the trace is: the new vnode's \<open>prepatch\<close> hook if it has
  one; then, if the new vnode has \<open>data\<close> or has a text that differs from the old
  vnode's, every module \<open>update\<close> hook followed by the new vnode's own \<open>update\<close> hook if
  it has one, and otherwise nothing; then the rest, in which no \<open>update\<close> hook, of a
  module or the vnode's own, is called for this vnode.
\<close>

theorem update_hooks_iff_needed:
  assumes "vid oldVnode \<noteq> vid vnode"
    and "vid vnode \<notin> set (case children vnode of None \<Rightarrow> [] | Some (a, cs) \<Rightarrow> ids_list cs)"
  shows "\<exists>w. trace (state_of (patchVnode eng oldVnode vnode st)) =
               trace st @
               own_hook_events vnode on_prepatch (HookPrepatch (vid oldVnode) (vid vnode)) @
               (if data vnode \<noteq> None \<or> (vtext vnode \<noteq> None \<and> vtext vnode \<noteq> vtext oldVnode)
                then map (\<lambda>j. ModuleUpdate j (vid oldVnode) (vid vnode))
                       [0..<cbs_update (engine_cbs eng)] @
                     own_hook_events vnode on_update (HookUpdate (vid oldVnode) (vid vnode))
                else []) @ w \<and>
             list_all (\<lambda>ev. update_target ev \<noteq> Some (vid vnode)) w"
proof -
  let ?T = "set (case children vnode of None \<Rightarrow> [] | Some (a, cs) \<Rightarrow> ids_list cs)"
  let ?pre = "own_hook_events vnode on_prepatch (HookPrepatch (vid oldVnode) (vid vnode))"
  let ?upd = "if update_needed oldVnode vnode then update_events eng oldVnode vnode else []"
  let ?post = "own_hook_events vnode on_postpatch (HookPostpatch (vid oldVnode) (vid vnode))"
  let ?st2 = "emit (?pre @ ?upd) st"
  let ?R = "content_phase eng (patched_old oldVnode vnode) (patched_new oldVnode vnode) ?st2"
  have "emits (patch_event ?T) ?st2 (state_of ?R)"
    by (rule content_phase_emits) simp
  then obtain w1 where w1: "trace (state_of ?R) = trace ?st2 @ w1" "list_all (patch_event ?T) w1"
    by (auto simp: emits_def)
  have nt1: "list_all (\<lambda>ev. update_target ev \<noteq> Some (vid vnode)) w1"
    using w1(2) assms(2) by (auto simp: list_all_iff dest: patch_event_not_target)
  have nt2: "list_all (\<lambda>ev. update_target ev \<noteq> Some (vid vnode)) ?post"
    by (simp add: own_hook_events_def split: option.splits)
  have "\<exists>w. trace (state_of (patchVnode eng oldVnode vnode st)) = trace st @ ?pre @ ?upd @ w \<and>
             list_all (\<lambda>ev. update_target ev \<noteq> Some (vid vnode)) w"
  proof (cases ?R)
    case (Inl x)
    obtain e0 s0 where x: "x = (e0, s0)" by (cases x)
    from Inl x w1 have "trace s0 = trace st @ ?pre @ ?upd @ w1" by (simp add: state_of_def)
    with Inl x nt1 show ?thesis
      unfolding patchVnode_phases [OF assms(1)] by (auto simp: state_of_def)
  next
    case (Inr y)
    obtain o3 n3 st4 where y: "y = ((o3, n3), st4)" by (cases y) auto
    from Inr y w1 have "trace st4 = trace st @ ?pre @ ?upd @ w1" by (simp add: state_of_def)
    then have "trace (emit ?post st4) = trace st @ ?pre @ ?upd @ (w1 @ ?post)" by simp
    moreover have "list_all (\<lambda>ev. update_target ev \<noteq> Some (vid vnode)) (w1 @ ?post)"
      using nt1 nt2 by simp
    ultimately show ?thesis
      unfolding patchVnode_phases [OF assms(1)] using Inr y
      by (simp only: sum.case prod.case state_of_def) blast
  qed
  then show ?thesis
    unfolding update_needed_def update_events_def .
qed


theorem update_hooks_iff_needed_witness:
  "vid (VNode (Ref 1) (Some ''p'') None None None (Some ''a'') (Some 1)) \<noteq>
   vid (VNode (Ref 2) (Some ''p'') None None None (Some ''b'') None) \<and>
   (\<exists>w. trace (state_of (patchVnode
             (init [\<lparr>m_create = False, m_update = True, m_remove = None, m_destroy = False,
                     m_pre = False, m_post = False\<rparr>] False False)
             (VNode (Ref 1) (Some ''p'') None None None (Some ''a'') (Some 1))
             (VNode (Ref 2) (Some ''p'') None None None (Some ''b'') None) attached)) =
          [ModuleUpdate 0 (Ref 1) (Ref 2)] @ w \<and>
        list_all (\<lambda>ev. update_target ev \<noteq> Some (Ref 2)) w) \<and>
   (\<exists>w. trace (state_of (patchVnode
             (init [\<lparr>m_create = False, m_update = True, m_remove = None, m_destroy = False,
                     m_pre = False, m_post = False\<rparr>] False False)
             (VNode (Ref 1) (Some ''p'') None None None (Some ''a'') (Some 1))
             (VNode (Ref 2) (Some ''p'') None None None (Some ''a'') None) attached)) = w \<and>
        list_all (\<lambda>ev. update_target ev \<noteq> Some (Ref 2)) w)"
  using update_hooks_iff_needed
    [of "VNode (Ref 1) (Some ''p'') None None None (Some ''a'') (Some 1)"
        "VNode (Ref 2) (Some ''p'') None None None (Some ''b'') None"
        "init [\<lparr>m_create = False, m_update = True, m_remove = None, m_destroy = False,
                m_pre = False, m_post = False\<rparr>] False False" attached]
    update_hooks_iff_needed
    [of "VNode (Ref 1) (Some ''p'') None None None (Some ''a'') (Some 1)"
        "VNode (Ref 2) (Some ''p'') None None None (Some ''a'') None"
        "init [\<lparr>m_create = False, m_update = True, m_remove = None, m_destroy = False,
                m_pre = False, m_post = False\<rparr>] False False" attached]
  by (simp add: own_hook_events_def data_hook.simps init_def attached_def)


section \<open>The insert queue\<close>

lemma queue_emit [simp]: "insertedVnodeQueue (emit es s) = insertedVnodeQueue s"
  by (simp add: emit_def)

lemma queue_api_create:
  "api_create c k t st = (n, st1) \<Longrightarrow> insertedVnodeQueue st1 = insertedVnodeQueue st"
  by (auto simp: api_create_def split: prod.splits)

lemma queue_set_sel_attrs [simp]:
  "insertedVnodeQueue (set_sel_attrs s n st) = insertedVnodeQueue st"
  by (simp add: set_sel_attrs_def api_setAttribute_def Let_def)

lemma queue_module_create_hooks [simp]:
  "insertedVnodeQueue (module_create_hooks eng i st) = insertedVnodeQueue st"
  by (simp add: module_create_hooks_def)

lemma queue_call_init [simp]:
  "insertedVnodeQueue (call_init i d st) = insertedVnodeQueue st"
  by (simp add: call_init_def split: option.splits)

lemma queue_api_appendChild:
  "api_appendChild p n st = Inr (u, st1) \<Longrightarrow> insertedVnodeQueue st1 = insertedVnodeQueue st"
  by (auto simp: api_appendChild_def Let_def split: option.splits sum.splits)

lemma queue_api_insertBefore:
  "api_insertBefore p n r st = Inr (u, st1) \<Longrightarrow> insertedVnodeQueue st1 = insertedVnodeQueue st"
  by (auto simp: api_insertBefore_def Let_def split: option.splits sum.splits)

lemma queue_own_create_hooks:
  "own_create_hooks v st = Inr (u, st1) \<Longrightarrow>
     insertedVnodeQueue st1 = insertedVnodeQueue st @ (if has_insert v then [v] else [])"
  by (auto simp: own_create_hooks_def has_insert_def data_hook.simps Let_def
      split: option.splits if_splits)

lemma createElm_queue:
  "createElm eng v st = Inr (v1, st1) \<Longrightarrow>
     insertedVnodeQueue st1 = insertedVnodeQueue st @ queued eng v1"
  "createElm_children eng n cs st = Inr (cs1, st1) \<Longrightarrow>
     insertedVnodeQueue st1 = insertedVnodeQueue st @ queued_list eng cs1"
proof (induction eng v st and eng n cs st arbitrary: v1 st1 and cs1 st1
    rule: createElm_createElm_children.induct)
  case (1 eng i s k d ch t e st)
  let ?st0 = "call_init i d st"
  show ?case
  proof (cases "s = Some ''!''")
    case True
    with "1.prems" show ?thesis
      by (auto simp: Let_def split: prod.splits dest: queue_api_create)
  next
    case False
    show ?thesis
    proof (cases s)
      case None
      show ?thesis
      proof (cases "if fragments eng then ch else None")
        case N: None
        with None "1.prems" show ?thesis
          by (auto simp: Let_def split: prod.splits if_splits dest: queue_api_create)
      next
        case (Some acs)
        obtain a cs where acs: "acs = (a, cs)" by (cases acs)
        from "1.prems" None Some acs have T: "createDocumentFragment eng"
          by (auto simp: Let_def split: if_splits)
        obtain n st1' where c: "api_create CreateDocumentFragment FragmentNode [] ?st0 = (n, st1')"
          by (cases "api_create CreateDocumentFragment FragmentNode [] ?st0")
        from "1.prems" None Some acs T c obtain cs1 where
          r: "createElm_children eng n cs (module_create_hooks eng i st1') = Inr (cs1, st1)"
          and v1: "v1 = VNode i s k d (Some (a, cs1)) t (Some n)"
          by (auto simp: Let_def split: sum.splits if_splits)
        have "insertedVnodeQueue st1 =
                insertedVnodeQueue (module_create_hooks eng i st1') @ queued_list eng cs1"
          by (rule "1.IH"(1) [OF _ _ _ _ _ _ _ r])
             (use False None Some acs T c in \<open>auto simp: c [symmetric]\<close>)
        with queue_api_create [OF c] None Some acs v1 show ?thesis
          by (auto split: if_splits)
      qed
    next
      case (Some sel0)
      let ?cr = "case data_ns d of
                   Some nsp \<Rightarrow> api_create (CreateElementNS nsp (sel_tag sel0))
                                 (ElementNode (sel_tag sel0) (Some nsp)) [] ?st0
                 | None \<Rightarrow> api_create (CreateElement (sel_tag sel0))
                             (ElementNode (sel_tag sel0) None) [] ?st0"
      obtain n st1' where c: "?cr = (n, st1')" by (cases ?cr)
      have q1: "insertedVnodeQueue st1' = insertedVnodeQueue st"
        using c by (auto split: option.splits dest: queue_api_create)
      let ?st2 = "module_create_hooks eng i (set_sel_attrs sel0 n st1')"
      let ?kids = "case ch of
                     Some (a, cs) \<Rightarrow>
                       (case createElm_children eng n cs ?st2 of
                          Inl x \<Rightarrow> Inl x
                        | Inr (cs1, st3) \<Rightarrow> Inr (Some (a, cs1), st3))
                   | None \<Rightarrow>
                       (case t of
                          Some t0 \<Rightarrow>
                            (case api_create (CreateTextNode t0) TextNode t0 ?st2 of
                               (c, st3) \<Rightarrow>
                                 (case api_appendChild (Some n) (Some c) st3 of
                                    Inl x \<Rightarrow> Inl x
                                  | Inr (u, st4) \<Rightarrow> Inr (None, st4)))
                        | None \<Rightarrow> Inr (None, ?st2))"
      have fin: "createElm eng (VNode i s k d ch t e) st =
                   (case ?kids of
                      Inl x \<Rightarrow> Inl x
                    | Inr (ch1, st5) \<Rightarrow>
                        (case own_create_hooks (VNode i s k d ch1 t (Some n)) st5 of
                           Inl x \<Rightarrow> Inl x
                         | Inr (u, st6) \<Rightarrow> Inr (VNode i s k d ch1 t (Some n), st6)))"
        using False Some c by (simp add: Let_def cong: option.case_cong sum.case_cong)
      from "1.prems" fin obtain ch1 st5 u where
        k: "?kids = Inr (ch1, st5)"
        and o: "own_create_hooks (VNode i s k d ch1 t (Some n)) st5 = Inr (u, st1)"
        and v1: "v1 = VNode i s k d ch1 t (Some n)"
        by (auto split: sum.splits)
      have q5: "insertedVnodeQueue st5 = insertedVnodeQueue st @
                  (case ch1 of None \<Rightarrow> [] | Some (a, cs) \<Rightarrow> queued_list eng cs)"
      proof (cases ch)
        case N: None
        with k q1 show ?thesis
          by (auto split: option.splits prod.splits sum.splits
              dest!: queue_api_create queue_api_appendChild)
      next
        case S: (Some acs)
        obtain a cs where acs: "acs = (a, cs)" by (cases acs)
        from k S acs obtain cs1 where
          r: "createElm_children eng n cs ?st2 = Inr (cs1, st5)" and ch1: "ch1 = Some (a, cs1)"
          by (auto split: sum.splits)
        have "insertedVnodeQueue st5 = insertedVnodeQueue ?st2 @ queued_list eng cs1"
          by (rule "1.IH"(2) [OF _ _ _ _ _ _ _ r])
             (use False Some S acs c in \<open>auto simp: c [symmetric]\<close>)
        with q1 ch1 show ?thesis by simp
      qed
      from queue_own_create_hooks [OF o] q5 v1 False Some show ?thesis
        by (auto split: option.splits)
    qed
  qed
next
  case (2 eng n st)
  then show ?case by simp
next
  case (3 eng n c cs st)
  show ?case
  proof (cases c)
    case None
    with "3.prems" obtain cs1' where
      r: "createElm_children eng n cs st = Inr (cs1', st1)" and cs1: "cs1 = None # cs1'"
      by (auto split: sum.splits)
    from "3.IH"(1) [OF None r] cs1 show ?thesis by simp
  next
    case (Some v)
    with "3.prems" obtain v1 s1 u s2 cs1' where
      a: "createElm eng v st = Inr (v1, s1)"
      and b: "api_appendChild (Some n) (elm v1) s1 = Inr (u, s2)"
      and r: "createElm_children eng n cs s2 = Inr (cs1', st1)"
      and cs1: "cs1 = Some v1 # cs1'"
      by (auto split: sum.splits)
    from "3.IH"(2) [OF Some a] queue_api_appendChild [OF b]
      "3.IH"(3) [OF Some a refl b refl r] cs1
    show ?thesis by simp
  qed
qed


lemma queue_rmCb [simp]: "insertedVnodeQueue (state_of (rmCb c s)) = insertedVnodeQueue s"
  by (auto simp: rmCb_def state_of_def api_parentNode_def api_removeChild_def Let_def
      split: prod.splits option.splits sum.splits)

lemma queue_rm_times [simp]:
  "insertedVnodeQueue (state_of (rm_times k c s)) = insertedVnodeQueue s"
proof (induction k arbitrary: s)
  case 0
  then show ?case by (simp add: state_of_def)
next
  case (Suc k)
  show ?case
  proof (cases "rmCb c s")
    case (Inl a)
    with queue_rmCb [of c s] show ?thesis by (simp add: state_of_def)
  next
    case (Inr b)
    obtain u s1 where b: "b = (u, s1)" by (cases b)
    from queue_rmCb [of c s] Inr b have "insertedVnodeQueue s1 = insertedVnodeQueue s"
      by (simp add: state_of_def)
    with Suc.IH [of s1] Inr b show ?thesis by simp
  qed
qed

lemma queue_module_remove_hooks [simp]:
  "insertedVnodeQueue (state_of (module_remove_hooks c i j ks s)) = insertedVnodeQueue s"
proof (induction ks arbitrary: s j)
  case Nil
  then show ?case by (simp add: state_of_def)
next
  case (Cons k ks)
  show ?case
  proof (cases "rm_times k c (emit [ModuleRemove j i] s)")
    case (Inl x)
    with queue_rm_times [of k c "emit [ModuleRemove j i] s"] show ?thesis
      by (simp add: state_of_def)
  next
    case (Inr y)
    obtain u s1 where y: "y = (u, s1)" by (cases y)
    from queue_rm_times [of k c "emit [ModuleRemove j i] s"] Inr y
    have "insertedVnodeQueue s1 = insertedVnodeQueue s" by (simp add: state_of_def)
    with Cons.IH [of "Suc j" s1] Inr y show ?thesis by simp
  qed
qed

lemma queue_removeVnode [simp]:
  "insertedVnodeQueue (state_of (removeVnode eng p ch s)) = insertedVnodeQueue s"
proof (cases "sel ch \<noteq> None")
  case False
  then show ?thesis
    by (auto simp: removeVnode_def api_removeChild_def state_of_def Let_def
        split: option.splits sum.splits)
next
  case True
  let ?D = "concat (map (node_destroy_events eng) (destroyed_nodes ch))"
  let ?st2 = "(emit ?D s)\<lparr>rmcbs := rmcbs (emit ?D s) @
                 [(elm ch, int (length (cbs_remove (engine_cbs eng))) + 1)]\<rparr>"
  let ?m = "module_remove_hooks (length (rmcbs s)) (vid ch) 0 (cbs_remove (engine_cbs eng)) ?st2"
  have q2: "insertedVnodeQueue (state_of ?m) = insertedVnodeQueue s"
    by (simp del: emit_emit)
  show ?thesis
  proof (cases ?m)
    case (Inl x)
    with True q2 show ?thesis
      by (simp add: removeVnode_def createRmCb_def invokeDestroyHook_emit Let_def state_of_def)
  next
    case (Inr y)
    obtain u st3 where y: "y = (u, st3)" by (cases y)
    from q2 Inr y have q3: "insertedVnodeQueue st3 = insertedVnodeQueue s"
      by (simp add: state_of_def)
    have "insertedVnodeQueue (state_of (case hook_remove_of ch of
              Some k \<Rightarrow> rm_times k (length (rmcbs s)) (emit [HookRemove (vid ch)] st3)
            | None \<Rightarrow> rmCb (length (rmcbs s)) st3)) = insertedVnodeQueue s"
      using q3 by (cases "hook_remove_of ch") simp_all
    with True Inr y show ?thesis
      by (simp add: removeVnode_def createRmCb_def invokeDestroyHook_emit Let_def
          cong: option.case_cong)
  qed
qed

lemma queue_removeVnodes [simp]:
  "insertedVnodeQueue (state_of (removeVnodes eng p vs i j st)) = insertedVnodeQueue st"
proof (induction eng p vs i j st rule: removeVnodes.induct)
  case (1 eng parentElm vnodes startIdx endIdx st)
  show ?case
  proof (cases "startIdx \<le> endIdx")
    case False
    then show ?thesis by (subst removeVnodes.simps) (simp add: state_of_def)
  next
    case True
    show ?thesis
    proof (cases "slot vnodes startIdx")
      case None
      with True "1.IH"(1) show ?thesis by (subst removeVnodes.simps) simp
    next
      case (Some ch)
      show ?thesis
      proof (cases "removeVnode eng parentElm ch st")
        case (Inl x)
        with True Some queue_removeVnode [of eng parentElm ch st] show ?thesis
          by (subst removeVnodes.simps) (simp add: state_of_def)
      next
        case (Inr y)
        obtain u st1 where y: "y = (u, st1)" by (cases y)
        from queue_removeVnode [of eng parentElm ch st] Inr y
        have "insertedVnodeQueue st1 = insertedVnodeQueue st" by (simp add: state_of_def)
        with "1.IH"(2) [OF True Some Inr [unfolded y] refl] True Some Inr y
        show ?thesis by (subst removeVnodes.simps) simp
      qed
    qed
  qed
qed

lemma queued_members_gen:
  assumes "\<And>i s k d ch t e. has_insert (VNode i s k d ch t e) \<Longrightarrow> s \<noteq> Some ''!'' \<Longrightarrow>
             s \<noteq> None \<Longrightarrow> P (VNode i s k d ch t e)"
  shows "u \<in> set (queued eng v) \<Longrightarrow> P u"
    and "u \<in> set (queued_list eng cs) \<Longrightarrow> P u"
proof (induction eng v and eng cs rule: queued_queued_list.induct)
  case (1 eng i s k d ch t e)
  show ?case
  proof (cases "s = Some ''!''")
    case True
    with "1.prems" show ?thesis by simp
  next
    case False
    show ?thesis
    proof (cases s)
      case None
      from "1.prems" False None obtain a cs where
        f: "(if fragments eng then ch else None) = Some (a, cs)" and
        m: "u \<in> set (queued_list eng cs)"
        by (auto split: option.splits if_splits)
      from "1.IH"(1) [OF False None f refl m] show ?thesis .
    next
      case (Some sel0)
      from "1.prems" False Some consider
        (kid) a cs where "ch = Some (a, cs)" "u \<in> set (queued_list eng cs)"
        | (self) "has_insert (VNode i s k d ch t e)" "u = VNode i s k d ch t e"
        by (auto split: option.splits if_splits)
      then show ?thesis
      proof cases
        case kid
        with "1.IH"(2) [OF False Some kid(1) refl] show ?thesis by simp
      next
        case self
        with assms [of i s k d ch t e] False Some show ?thesis by simp
      qed
    qed
  qed
next
  case (2 eng)
  then show ?case by simp
next
  case (3 eng c cs)
  then show ?case by (auto split: option.splits)
qed

lemma queued_members:
  "u \<in> set (queued eng v) \<Longrightarrow> has_insert u \<and> sel u \<noteq> None \<and> sel u \<noteq> Some ''!''"
  by (rule queued_members_gen(1) [where P = "\<lambda>u. has_insert u \<and> sel u \<noteq> None \<and> sel u \<noteq> Some ''!''"])
     simp_all


section \<open>A patch pass\<close>

lemma queue_api_insertBefore_state [simp]:
  "insertedVnodeQueue (state_of (api_insertBefore p n r st)) = insertedVnodeQueue st"
  by (auto simp: api_insertBefore_def state_of_def Let_def split: option.splits sum.splits)

lemma patch_unfold:
  "patch eng oldRoot vnode st =
     (case patch_body eng (root_vnode st oldRoot) vnode
             (emit (map ModulePre [0..<cbs_pre (engine_cbs eng)])
                (st\<lparr>insertedVnodeQueue := []\<rparr>)) of
        Inl x \<Rightarrow> Inl x
      | Inr (n1, st6) \<Rightarrow>
          Inr (n1, emit (map ModulePost [0..<cbs_post (engine_cbs eng)])
                     (insert_hooks (insertedVnodeQueue st6) st6)))"
proof -
  have d: "dom (emit es (st\<lparr>insertedVnodeQueue := []\<rparr>)) = dom st" for es
    by (simp add: emit_def)
  show ?thesis
    unfolding patch_def Let_def d patch_body_def root_vnode_def ..
qed

lemma patch_body_emits:
  "emits (patch_event UNIV) st0 (state_of (patch_body eng oldVnode vnode st0))"
  unfolding patch_body_def
  by (auto intro!: emits_bind2 emits_bind3 patch_emits_sub(1) api_parentNode_emits
      createElm_patch_event api_nextSibling_emits api_insertBefore_patch_event
      removeVnodes_emits)

lemma patch_body_queue:
  assumes "\<not> sameVnode oldVnode vnode" and "patch_body eng oldVnode vnode st0 = Inr (n1, st6)"
  shows "insertedVnodeQueue st6 = insertedVnodeQueue st0 @ queued eng n1"
proof -
  let ?rest = "\<lambda>parent st2.
          (if parent \<noteq> None then
               (case api_nextSibling (elm oldVnode) st2 of
                  Inl x \<Rightarrow> Inl x
                | Inr (sib, st3) \<Rightarrow>
                    (case api_insertBefore parent (elm n1) sib st3 of
                       Inl x \<Rightarrow> Inl x
                     | Inr (u, st4) \<Rightarrow>
                         (case removeVnodes eng parent [Some oldVnode] 0 0 st4 of
                            Inl x \<Rightarrow> Inl x
                          | Inr (u, st5) \<Rightarrow> Inr (n1, st5))))
             else Inr (n1, st2))"
  from assms have body: "(case api_parentNode (elm oldVnode) st0 of
           Inl x \<Rightarrow> Inl x
         | Inr (parent, st1) \<Rightarrow>
             (case createElm eng vnode st1 of
                Inl x \<Rightarrow> Inl x
              | Inr (n1, st2) \<Rightarrow>
                  if parent \<noteq> None then
                    (case api_nextSibling (elm oldVnode) st2 of
                       Inl x \<Rightarrow> Inl x
                     | Inr (sib, st3) \<Rightarrow>
                         (case api_insertBefore parent (elm n1) sib st3 of
                            Inl x \<Rightarrow> Inl x
                          | Inr (u, st4) \<Rightarrow>
                              (case removeVnodes eng parent [Some oldVnode] 0 0 st4 of
                                 Inl x \<Rightarrow> Inl x
                               | Inr (u, st5) \<Rightarrow> Inr (n1, st5))))
                  else Inr (n1, st2))) = Inr (n1, st6)"
    by (simp add: patch_body_def)
  then obtain parent st1 where p: "api_parentNode (elm oldVnode) st0 = Inr (parent, st1)"
    by (cases "api_parentNode (elm oldVnode) st0") auto
  from body p obtain m1 st2 where c0: "createElm eng vnode st1 = Inr (m1, st2)"
    by (cases "createElm eng vnode st1") auto
  from body p c0 have m1: "m1 = n1"
    by (auto split: if_splits sum.splits)
  from c0 m1 have c: "createElm eng vnode st1 = Inr (n1, st2)" by simp
  from body p c have r: "?rest parent st2 = Inr (n1, st6)" by simp
  from p have st1: "st1 = st0" by (auto simp: api_parentNode_def split: option.splits)
  have "insertedVnodeQueue st6 = insertedVnodeQueue st2"
  proof (cases "parent = None")
    case True
    with r show ?thesis by simp
  next
    case False
    with r obtain sib st3 st4 where
      n: "api_nextSibling (elm oldVnode) st2 = Inr (sib, st3)"
      and a: "api_insertBefore parent (elm n1) sib st3 = Inr ((), st4)"
      and b: "removeVnodes eng parent [Some oldVnode] 0 0 st4 = Inr ((), st6)"
      by (auto split: sum.splits)
    from n have "st3 = st2" by (auto simp: api_nextSibling_def split: option.splits)
    with queue_api_insertBefore [OF a]
      queue_removeVnodes [of eng parent "[Some oldVnode]" 0 0 st4] b
    show ?thesis by (simp add: state_of_def)
  qed
  with createElm_queue(1) [OF c] st1 show ?thesis by simp
qed



lemmas eval_defs =
  patch_def sameVnode_def init_def attached_def one_child_def emit_def call_init_def
  emptyData_def data_ns_def api_create_def new_node_def sel_tag_def sel_hashIdx_def
  sel_dotIdx_def indexOf_def set_sel_attrs_def sel_hash_def sel_dot_def
  module_create_hooks_def api_appendChild_def api_insertBefore_def api_parentNode_def
  api_nextSibling_def api_removeChild_def parentNode_def nextSibling_def insertBefore_def
  removeChild_def detach_def own_create_hooks_def removeVnodes_single removeVnode_def
  createRmCb_def hook_remove_of_def rmCb_def own_destroy_hook_def module_destroy_hooks_def
  insert_hooks_def state_of_def data_hook.simps has_insert_def Let_def




section \<open>Reordering keyed children\<close>

subsection \<open>Moving a node within a list of children\<close>

lemma remove1_mid: "x \<notin> set P \<Longrightarrow> remove1 x (P @ x # Q) = P @ Q"
  by (induction P) auto

lemma ins_before_mid: "r \<notin> set P \<Longrightarrow> ins_before x r (P @ r # Q) = P @ x # r # Q"
  by (induction P) auto

lemma next_in_cons:
  "xs \<noteq> [] \<Longrightarrow> next_in y (a # xs) = (if a = y then Some (hd xs) else next_in y xs)"
  by (cases xs) auto

lemma next_in_mid: "y \<notin> set P \<Longrightarrow> next_in y (P @ y # s # S) = Some s"
  by (induction P) (auto simp: next_in_cons)

lemma next_in_last: "y \<notin> set P \<Longrightarrow> next_in y (P @ [y]) = None"
  by (induction P) (auto simp: next_in_cons)

lemma next_in_cases:
  "y \<notin> set P \<Longrightarrow> next_in y (P @ y # S) = (case S of [] \<Rightarrow> None | s # S' \<Rightarrow> Some s)"
  by (cases S) (simp_all add: next_in_mid next_in_last)

subsection \<open>The adapter on children of one parent\<close>

lemma detach_child:
  "parent_of h n = Some p \<Longrightarrow>
     detach n h = h\<lparr>parent_of := (parent_of h)(n := None), kids := (kids h)(p := remove1 n (kids h p))\<rparr>"
  by (simp add: detach_def)

lemma insertBefore_append:
  assumes "parent_of h n = Some p"
  shows "\<exists>h'. insertBefore p n None h = Inr h' \<and> kids h' p = remove1 n (kids h p) @ [n] \<and>
           parent_of h' = parent_of h"
  using assms by (auto simp: insertBefore_def detach_child Let_def fun_eq_iff)

lemma insertBefore_before:
  assumes "parent_of h n = Some p" and "parent_of h r = Some p" and "r \<noteq> n"
  shows "\<exists>h'. insertBefore p n (Some r) h = Inr h' \<and>
           kids h' p = ins_before n r (remove1 n (kids h p)) \<and> parent_of h' = parent_of h"
  using assms by (auto simp: insertBefore_def detach_child Let_def fun_eq_iff)


section \<open>Duplicate keys\<close>

lemma the_key_map_fresh:
  "oldKeyToIdx v = None \<Longrightarrow>
     the_key_map v = createKeyToOldIdx (oldCh v) (oldStartIdx v) (oldEndIdx v)"
  by (simp add: the_key_map_def)



text \<open>The definitions to unfold when the loop is run on given children.\<close>

lemmas loop_defs =
  uc_init_def inc_oldStart_def dec_oldEnd_def inc_newStart_def dec_newEnd_def put_old_def
  put_new_def clear_old_def insert_new_def uc_finish_def key_name_def the_key_map_def
  obj_get_def obj_set_def object_prototype_names_def slot_def slot_key_def
  createKeyToOldIdx_def createKeyToOldIdx_loop.simps prepatch_hook_def postpatch_hook_def
  update_needed_def update_hooks_def patch_content_def





section \<open>Element vnodes without data\<close>

lemma createElm_no_data:
  assumes "sel v = Some s" and "s \<noteq> ''!''" and "data v = None"
  shows "\<exists>e st'. createElm eng v st = Inl (e, st') \<and>
           (e = TypeError \<or>
            (e = DocumentFragmentNotSupported \<and> fragments eng \<and> \<not> createDocumentFragment eng))"
proof (cases "createElm eng v st")
  case (Inl a)
  obtain e st' where a: "a = (e, st')" by (cases a)
  have "createElm eng v st = Inl (e, st')" unfolding Inl a ..
  from this createElm_error_kinds(1) [OF this] show ?thesis by blast
next
  case (Inr r)
  obtain i s0 k d ch t e0 where v: "v = VNode i s0 k d ch t e0" by (cases v)
  from assms have "s0 = Some s" and "d = None" unfolding v by simp_all
  with Inr have "createElm eng (VNode i (Some s) k None ch t e0) st = Inr r"
    unfolding v by simp
  from createElm_needs_data [OF this] assms(2) show ?thesis by simp
qed

lemma api_parentNode_error: "api_parentNode n st = Inl (e, st') \<Longrightarrow> e = TypeError"
  by (auto simp: api_parentNode_def split: option.splits)





section \<open>The host tree that \<open>createElm\<close> builds\<close>


lemma placed_in_range:
  "placed_in eng h lo hi v \<Longrightarrow> \<exists>n. elm v = Some n \<and> lo \<le> n \<and> n < hi"
  by (cases v) (auto split: option.splits)



lemma placed_in_mono:
  "placed_in eng h lo hi v \<Longrightarrow> lo' \<le> lo \<Longrightarrow> hi \<le> hi' \<Longrightarrow> placed_in eng h lo' hi' v"
  "placed_list_in eng h p lo hi cs \<Longrightarrow> lo' \<le> lo \<Longrightarrow> hi \<le> hi' \<Longrightarrow>
     placed_list_in eng h p lo' hi' cs"
proof (induction eng h lo hi v and eng h p lo hi cs arbitrary: lo' hi' and lo' hi'
    rule: placed_in_placed_list_in.induct)
  case (1 eng h lo hi i s k d ch t e)
  from "1.prems"(1) obtain n where e: "e = Some n" and r: "lo \<le> n" "n < hi"
    by (auto split: option.splits)
  show ?case
  proof (cases "s = Some ''!''")
    case True
    with e r "1.prems" show ?thesis by simp
  next
    case False
    show ?thesis
    proof (cases "if s = None \<and> \<not> fragments eng then None else ch")
      case None
      with e r False "1.prems" show ?thesis by simp
    next
      case (Some acs)
      obtain a cs where acs: "acs = (a, cs)" by (cases acs)
      from "1.prems"(1) e False Some acs have
        k: "kids h n = child_elms cs" and pl: "placed_list_in eng h n (Suc n) hi cs"
        by simp_all
      have "placed_list_in eng h n (Suc n) hi' cs"
        by (rule "1.IH" [OF e False Some [unfolded acs] refl pl]) (use "1.prems" in simp_all)
      with e r False Some acs k "1.prems" show ?thesis by simp
    qed
  qed
next
  case (2 eng h p lo hi)
  then show ?case by simp
next
  case (3 eng h p lo hi c cs)
  from "3.prems"(1) have rest: "placed_list_in eng h p lo hi cs" by simp
  have r': "placed_list_in eng h p lo' hi' cs"
    by (rule "3.IH"(2) [OF rest "3.prems"(2,3)])
  show ?case
  proof (cases c)
    case None
    with r' show ?thesis by simp
  next
    case (Some v)
    from "3.prems"(1) Some have
      a: "(case elm v of None \<Rightarrow> False | Some m \<Rightarrow> parent_of h m = Some p)"
      and b: "placed_in eng h lo hi v" by simp_all
    from "3.IH"(1) [OF Some b "3.prems"(2,3)] a r' Some show ?thesis by simp
  qed
qed


lemma placed_in_cong:
  "placed_in eng h lo hi v \<Longrightarrow> (\<And>m. lo \<le> m \<Longrightarrow> m < hi \<Longrightarrow> kids h' m = kids h m) \<Longrightarrow>
   (\<And>m. lo < m \<Longrightarrow> m < hi \<Longrightarrow> parent_of h' m = parent_of h m) \<Longrightarrow>
     placed_in eng h' lo hi v"
  "placed_list_in eng h p lo hi cs \<Longrightarrow>
   (\<And>m. lo \<le> m \<Longrightarrow> m < hi \<Longrightarrow> kids h' m = kids h m) \<Longrightarrow>
   (\<And>m. lo \<le> m \<Longrightarrow> m < hi \<Longrightarrow> parent_of h' m = parent_of h m) \<Longrightarrow>
     placed_list_in eng h' p lo hi cs"
proof (induction eng h lo hi v and eng h p lo hi cs
    rule: placed_in_placed_list_in.induct)
  case (1 eng h lo hi i s k d ch t e)
  from "1.prems"(1) obtain n where e: "e = Some n" and r: "lo \<le> n" "n < hi"
    by (auto split: option.splits)
  show ?case
  proof (cases "s = Some ''!''")
    case True
    with e r show ?thesis by simp
  next
    case False
    show ?thesis
    proof (cases "if s = None \<and> \<not> fragments eng then None else ch")
      case None
      with e r False show ?thesis by simp
    next
      case (Some acs)
      obtain a cs where acs: "acs = (a, cs)" by (cases acs)
      from "1.prems"(1) e False Some acs have
        k: "kids h n = child_elms cs" and pl: "placed_list_in eng h n (Suc n) hi cs"
        by simp_all
      have "placed_list_in eng h' n (Suc n) hi cs"
        by (rule "1.IH" [OF e False Some [unfolded acs] refl pl])
           (use "1.prems"(2,3) r in auto)
      moreover have "kids h' n = child_elms cs" using k "1.prems"(2) [OF r] by simp
      ultimately show ?thesis using e r False Some acs by simp
    qed
  qed
next
  case (2 eng h p lo hi)
  then show ?case by simp
next
  case (3 eng h p lo hi c cs)
  from "3.prems"(1) have rest: "placed_list_in eng h p lo hi cs" by simp
  have r': "placed_list_in eng h' p lo hi cs"
    by (rule "3.IH"(2) [OF rest "3.prems"(2,3)])
  show ?case
  proof (cases c)
    case None
    with r' show ?thesis by simp
  next
    case (Some v)
    from "3.prems"(1) Some have b: "placed_in eng h lo hi v" by simp
    from placed_in_range [OF b] obtain m where m: "elm v = Some m" "lo \<le> m" "m < hi" by blast
    from "3.prems"(1) Some m have a: "parent_of h m = Some p" by simp
    have a': "parent_of h' m = Some p" using a "3.prems"(3) [OF m(2,3)] by simp
    have "placed_in eng h' lo hi v"
      by (rule "3.IH"(1) [OF Some b]) (use "3.prems"(2,3) in auto)
    with a' m r' Some show ?thesis by simp
  qed
qed

subsection \<open>What the steps of \<open>createElm\<close> do to the tree\<close>

lemma api_create_tree:
  "api_create c k t st = (n, st1) \<Longrightarrow>
     n = fresh (dom st) \<and> fresh (dom st1) = Suc (fresh (dom st)) \<and>
     parent_of (dom st1) = (parent_of (dom st))(n := None) \<and>
     kids (dom st1) = (kids (dom st))(n := [])"
  by (auto simp: api_create_def new_node_def emit_def)

lemma call_init_dom [simp]: "dom (call_init i d st) = dom st"
  by (simp add: call_init_def emit_def split: option.splits)

lemma module_create_hooks_dom [simp]: "dom (module_create_hooks eng i st) = dom st"
  by (simp add: module_create_hooks_def emit_def)

lemma set_sel_attrs_tree [simp]:
  "fresh (dom (set_sel_attrs s n st)) = fresh (dom st)"
  "parent_of (dom (set_sel_attrs s n st)) = parent_of (dom st)"
  "kids (dom (set_sel_attrs s n st)) = kids (dom st)"
  by (simp_all add: set_sel_attrs_def api_setAttribute_def setAttribute_def emit_def Let_def)

lemma own_create_hooks_dom: "own_create_hooks v st = Inr (u, st1) \<Longrightarrow> dom st1 = dom st"
  by (auto simp: own_create_hooks_def emit_def Let_def split: option.splits if_splits)

lemma api_appendChild_tree:
  "api_appendChild (Some p) (Some c) st = Inr (u, st1) \<Longrightarrow> parent_of (dom st) c = None \<Longrightarrow>
     fresh (dom st1) = fresh (dom st) \<and>
     parent_of (dom st1) = (parent_of (dom st))(c \<mapsto> p) \<and>
     kids (dom st1) = (kids (dom st))(p := kids (dom st) p @ [c])"
  by (auto simp: api_appendChild_def insertBefore_def detach_def emit_def Let_def
      split: sum.splits)

lemma api_appendChild_returns:
  "\<exists>st1. api_appendChild (Some p) (Some c) st = Inr ((), st1)"
  by (simp add: api_appendChild_def insertBefore_def Let_def)


subsection \<open>The tree built\<close>

lemma createElm_tree:
  "createElm eng v st = Inr (v1, st1) \<Longrightarrow>
     elm v1 = Some (fresh (dom st)) \<and> fresh (dom st) < fresh (dom st1) \<and>
     parent_of (dom st1) (fresh (dom st)) = None \<and>
     (\<forall>m<fresh (dom st). parent_of (dom st1) m = parent_of (dom st) m \<and>
                            kids (dom st1) m = kids (dom st) m) \<and>
     placed_in eng (dom st1) (fresh (dom st)) (fresh (dom st1)) v1"
  "createElm_children eng p cs st = Inr (cs1, st1) \<Longrightarrow> p < fresh (dom st) \<Longrightarrow>
     fresh (dom st) \<le> fresh (dom st1) \<and>
     kids (dom st1) p = kids (dom st) p @ child_elms cs1 \<and>
     (\<forall>m<fresh (dom st). parent_of (dom st1) m = parent_of (dom st) m \<and>
                            (m \<noteq> p \<longrightarrow> kids (dom st1) m = kids (dom st) m)) \<and>
     placed_list_in eng (dom st1) p (fresh (dom st)) (fresh (dom st1)) cs1"
proof (induction eng v st and eng p cs st arbitrary: v1 st1 and cs1 st1
    rule: createElm_createElm_children.induct)
  case (1 eng i s k d ch t e st)
  let ?st0 = "call_init i d st"
  let ?f = "fresh (dom st)"
  show ?case
  proof (cases "s = Some ''!''")
    case True
    with "1.prems" show ?thesis
      by (auto simp: Let_def split: prod.splits dest!: api_create_tree)
  next
    case False
    show ?thesis
    proof (cases s)
      case None
      show ?thesis
      proof (cases "if fragments eng then ch else None")
        case N: None
        with None "1.prems" show ?thesis
          by (auto simp: Let_def split: prod.splits if_splits dest!: api_create_tree)
      next
        case (Some acs)
        obtain a cs where acs: "acs = (a, cs)" by (cases acs)
        from Some acs have fr: "fragments eng" and ch: "ch = Some (a, cs)"
          by (auto split: if_splits)
        from "1.prems" None Some acs have T: "createDocumentFragment eng"
          by (auto simp: Let_def split: if_splits)
        obtain n st1' where c: "api_create CreateDocumentFragment FragmentNode [] ?st0 = (n, st1')"
          by (cases "api_create CreateDocumentFragment FragmentNode [] ?st0")
        from api_create_tree [OF c] have n: "n = ?f" and f1: "fresh (dom st1') = Suc ?f"
          and p1: "parent_of (dom st1') = (parent_of (dom st))(n := None)"
          and k1: "kids (dom st1') = (kids (dom st))(n := [])" by simp_all
        let ?st2 = "module_create_hooks eng i st1'"
        from "1.prems" None Some acs T c obtain cs1 where
          r: "createElm_children eng n cs ?st2 = Inr (cs1, st1)"
          and v1: "v1 = VNode i s k d (Some (a, cs1)) t (Some n)"
          by (auto simp: Let_def split: sum.splits if_splits)
        have lt: "n < fresh (dom ?st2)" using n f1 by simp
        have ih: "fresh (dom ?st2) \<le> fresh (dom st1) \<and>
            kids (dom st1) n = kids (dom ?st2) n @ child_elms cs1 \<and>
            (\<forall>m<fresh (dom ?st2). parent_of (dom st1) m = parent_of (dom ?st2) m \<and>
                 (m \<noteq> n \<longrightarrow> kids (dom st1) m = kids (dom ?st2) m)) \<and>
            placed_list_in eng (dom st1) n (fresh (dom ?st2)) (fresh (dom st1)) cs1"
          by (rule "1.IH"(1) [OF _ _ _ _ _ _ _ r lt])
             (use False None Some acs T c in \<open>auto simp: c [symmetric]\<close>)
        from ih n f1 p1 k1 v1 None fr show ?thesis by auto
      qed
    next
      case (Some sel0)
      let ?cr = "case data_ns d of
                   Some nsp \<Rightarrow> api_create (CreateElementNS nsp (sel_tag sel0))
                                 (ElementNode (sel_tag sel0) (Some nsp)) [] ?st0
                 | None \<Rightarrow> api_create (CreateElement (sel_tag sel0))
                             (ElementNode (sel_tag sel0) None) [] ?st0"
      obtain n st1' where c: "?cr = (n, st1')" by (cases ?cr)
      have "n = ?f \<and> fresh (dom st1') = Suc ?f \<and>
            parent_of (dom st1') = (parent_of (dom st))(n := None) \<and>
            kids (dom st1') = (kids (dom st))(n := [])"
        using c by (auto split: option.splits dest!: api_create_tree)
      then have n: "n = ?f" and f1: "fresh (dom st1') = Suc ?f"
          and p1: "parent_of (dom st1') = (parent_of (dom st))(n := None)"
          and k1: "kids (dom st1') = (kids (dom st))(n := [])" by simp_all
      let ?st2 = "module_create_hooks eng i (set_sel_attrs sel0 n st1')"
      have f2: "fresh (dom ?st2) = Suc ?f" and p2: "parent_of (dom ?st2) = (parent_of (dom st))(n := None)"
        and k2: "kids (dom ?st2) = (kids (dom st))(n := [])"
        using f1 p1 k1 by simp_all
      let ?kids = "case ch of
                     Some (a, cs) \<Rightarrow>
                       (case createElm_children eng n cs ?st2 of
                          Inl x \<Rightarrow> Inl x
                        | Inr (cs1, st3) \<Rightarrow> Inr (Some (a, cs1), st3))
                   | None \<Rightarrow>
                       (case t of
                          Some t0 \<Rightarrow>
                            (case api_create (CreateTextNode t0) TextNode t0 ?st2 of
                               (c, st3) \<Rightarrow>
                                 (case api_appendChild (Some n) (Some c) st3 of
                                    Inl x \<Rightarrow> Inl x
                                  | Inr (u, st4) \<Rightarrow> Inr (None, st4)))
                        | None \<Rightarrow> Inr (None, ?st2))"
      have fin: "createElm eng (VNode i s k d ch t e) st =
                   (case ?kids of
                      Inl x \<Rightarrow> Inl x
                    | Inr (ch1, st5) \<Rightarrow>
                        (case own_create_hooks (VNode i s k d ch1 t (Some n)) st5 of
                           Inl x \<Rightarrow> Inl x
                         | Inr (u, st6) \<Rightarrow> Inr (VNode i s k d ch1 t (Some n), st6)))"
        using False Some c by (simp add: Let_def cong: option.case_cong sum.case_cong)
      from "1.prems" fin obtain ch1 st5 u where
        k: "?kids = Inr (ch1, st5)"
        and o: "own_create_hooks (VNode i s k d ch1 t (Some n)) st5 = Inr (u, st1)"
        and v1: "v1 = VNode i s k d ch1 t (Some n)"
        by (auto split: sum.splits)
      have d5: "dom st1 = dom st5" by (rule own_create_hooks_dom [OF o])
      have t5: "Suc ?f \<le> fresh (dom st5) \<and> parent_of (dom st5) n = None \<and>
                (\<forall>m<?f. parent_of (dom st5) m = parent_of (dom st) m \<and>
                         kids (dom st5) m = kids (dom st) m) \<and>
                (case ch1 of
                   None \<Rightarrow> True
                 | Some (a, cs1) \<Rightarrow> kids (dom st5) n = child_elms cs1 \<and>
                     placed_list_in eng (dom st5) n (Suc n) (fresh (dom st5)) cs1)"
      proof (cases ch)
        case N: None
        show ?thesis
        proof (cases t)
          case None
          with N k f2 p2 k2 n show ?thesis by auto
        next
          case (Some t0)
          obtain c0 st3 where c3: "api_create (CreateTextNode t0) TextNode t0 ?st2 = (c0, st3)"
            by (cases "api_create (CreateTextNode t0) TextNode t0 ?st2")
          from api_create_tree [OF c3] f2 p2 k2 have c0: "c0 = Suc ?f"
            and f3: "fresh (dom st3) = Suc (Suc ?f)"
            and p3: "parent_of (dom st3) = (parent_of (dom st))(n := None, c0 := None)"
            and k3: "kids (dom st3) = (kids (dom st))(n := [], c0 := [])" by simp_all
          from k N Some c3 obtain u' where
            ap: "api_appendChild (Some n) (Some c0) st3 = Inr (u', st5)" and ch1: "ch1 = None"
            by (auto split: sum.splits)
          have "parent_of (dom st3) c0 = None" using p3 by simp
          from api_appendChild_tree [OF ap this] f3 p3 k3 n c0 ch1 show ?thesis
            by auto
        qed
      next
        case S: (Some acs)
        obtain a cs where acs: "acs = (a, cs)" by (cases acs)
        from k S acs obtain cs1 where
          r: "createElm_children eng n cs ?st2 = Inr (cs1, st5)" and ch1: "ch1 = Some (a, cs1)"
          by (auto split: sum.splits)
        have lt: "n < fresh (dom ?st2)" using n f2 by simp
        have ih: "fresh (dom ?st2) \<le> fresh (dom st5) \<and>
            kids (dom st5) n = kids (dom ?st2) n @ child_elms cs1 \<and>
            (\<forall>m<fresh (dom ?st2). parent_of (dom st5) m = parent_of (dom ?st2) m \<and>
                 (m \<noteq> n \<longrightarrow> kids (dom st5) m = kids (dom ?st2) m)) \<and>
            placed_list_in eng (dom st5) n (fresh (dom ?st2)) (fresh (dom st5)) cs1"
          by (rule "1.IH"(2) [OF _ _ _ _ _ _ _ r lt])
             (use False Some S acs c in \<open>auto simp: c [symmetric]\<close>)
        from ih f2 p2 k2 n ch1 show ?thesis by auto
      qed
      from t5 d5 v1 n False Some show ?thesis
        by (auto split: option.splits)
    qed
  qed
next
  case (2 eng n st)
  then show ?case by simp
next
  case (3 eng p c cs st)
  show ?case
  proof (cases c)
    case None
    with "3.prems" obtain cs1' where
      r: "createElm_children eng p cs st = Inr (cs1', st1)" and cs1: "cs1 = None # cs1'"
      by (auto split: sum.splits)
    from "3.IH"(1) [OF None r "3.prems"(2)] cs1 show ?thesis by simp
  next
    case (Some v)
    with "3.prems" obtain w1 s1 u s2 cs1' where
      a: "createElm eng v st = Inr (w1, s1)"
      and b: "api_appendChild (Some p) (elm w1) s1 = Inr (u, s2)"
      and r: "createElm_children eng p cs s2 = Inr (cs1', st1)"
      and cs1: "cs1 = Some w1 # cs1'"
      by (auto split: sum.splits)
    let ?f = "fresh (dom st)"
    note A = "3.IH"(2) [OF Some a]
    from A have e1: "elm w1 = Some ?f" and lt1: "?f < fresh (dom s1)"
      and pn: "parent_of (dom s1) ?f = None"
      and fr1: "\<And>m. m < ?f \<Longrightarrow> parent_of (dom s1) m = parent_of (dom st) m \<and>
                            kids (dom s1) m = kids (dom st) m"
      and pl1: "placed_in eng (dom s1) ?f (fresh (dom s1)) w1"
      by simp_all
    from api_appendChild_tree [OF b [unfolded e1] pn] have f2: "fresh (dom s2) = fresh (dom s1)"
      and p2: "parent_of (dom s2) = (parent_of (dom s1))(?f \<mapsto> p)"
      and k2: "kids (dom s2) = (kids (dom s1))(p := kids (dom s1) p @ [?f])" by simp_all
    have lt2: "p < fresh (dom s2)" using "3.prems"(2) lt1 f2 by simp
    note B = "3.IH"(3) [OF Some a refl b refl r lt2]
    from B have le3: "fresh (dom s2) \<le> fresh (dom st1)"
      and k3: "kids (dom st1) p = kids (dom s2) p @ child_elms cs1'"
      and fr3: "\<And>m. m < fresh (dom s2) \<Longrightarrow> parent_of (dom st1) m = parent_of (dom s2) m \<and>
                            (m \<noteq> p \<longrightarrow> kids (dom st1) m = kids (dom s2) m)"
      and pl3: "placed_list_in eng (dom st1) p (fresh (dom s2)) (fresh (dom st1)) cs1'"
      by simp_all
    have pf: "p < ?f" by (rule "3.prems"(2))
    have c1: "fresh (dom st) \<le> fresh (dom st1)" using lt1 f2 le3 by simp
    have c2: "kids (dom st1) p = kids (dom st) p @ child_elms cs1"
      using k3 k2 fr1 [OF pf] cs1 e1 by simp
    have c3: "parent_of (dom st1) m = parent_of (dom st) m \<and>
              (m \<noteq> p \<longrightarrow> kids (dom st1) m = kids (dom st) m)" if "m < ?f" for m
    proof -
      have "m < fresh (dom s2)" using that lt1 f2 by simp
      from fr3 [OF this] fr1 [OF that] p2 k2 that show ?thesis by auto
    qed
    have par: "parent_of (dom st1) ?f = Some p"
      using fr3 [of ?f] lt1 f2 p2 by simp
    have "placed_in eng (dom st1) ?f (fresh (dom s1)) w1"
    proof (rule placed_in_cong(1) [OF pl1])
      fix m assume m: "?f \<le> m" "m < fresh (dom s1)"
      then have "m \<noteq> p" using pf by simp
      with fr3 [of m] m f2 k2 show "kids (dom st1) m = kids (dom s1) m" by simp
    next
      fix m assume m: "?f < m" "m < fresh (dom s1)"
      with fr3 [of m] f2 p2 show "parent_of (dom st1) m = parent_of (dom s1) m" by simp
    qed
    then have pw: "placed_in eng (dom st1) ?f (fresh (dom st1)) w1"
      by (rule placed_in_mono(1)) (use le3 f2 in simp_all)
    have pr: "placed_list_in eng (dom st1) p ?f (fresh (dom st1)) cs1'"
      by (rule placed_in_mono(2) [OF pl3]) (use lt1 f2 in simp_all)
    from c1 c2 c3 par pw pr e1 cs1 show ?thesis by simp
  qed
qed


subsection \<open>When \<open>createElm\<close> returns\<close>

lemma own_create_hooks_returns:
  "data v \<noteq> None \<Longrightarrow> \<exists>st1. own_create_hooks v st = Inr ((), st1)"
  by (auto simp: own_create_hooks_def Let_def split: option.splits)

lemma createElm_returns:
  "buildable eng v \<Longrightarrow> \<exists>v1 st1. createElm eng v st = Inr (v1, st1)"
  "buildable_list eng cs \<Longrightarrow> \<exists>cs1 st1. createElm_children eng n cs st = Inr (cs1, st1)"
proof (induction eng v st and eng n cs st rule: createElm_createElm_children.induct)
  case (1 eng i s k d ch t e st)
  let ?st0 = "call_init i d st"
  show ?case
  proof (cases "s = Some ''!''")
    case True
    then show ?thesis by (auto simp: Let_def split: prod.splits)
  next
    case False
    show ?thesis
    proof (cases s)
      case None
      show ?thesis
      proof (cases "if fragments eng then ch else None")
        case N: None
        with None show ?thesis by (auto simp: Let_def split: prod.splits)
      next
        case (Some acs)
        obtain a cs where acs: "acs = (a, cs)" by (cases acs)
        from "1.prems" None Some acs have T: "createDocumentFragment eng"
          and bl: "buildable_list eng cs" by simp_all
        obtain n st1' where c: "api_create CreateDocumentFragment FragmentNode [] ?st0 = (n, st1')"
          by (cases "api_create CreateDocumentFragment FragmentNode [] ?st0")
        have "\<exists>cs1 st1. createElm_children eng n cs (module_create_hooks eng i st1') =
                Inr (cs1, st1)"
          by (rule "1.IH"(1) [OF _ _ _ _ _ _ _ bl])
             (use False None Some acs T c in \<open>auto simp: c [symmetric]\<close>)
        with None Some acs T c show ?thesis by auto
      qed
    next
      case (Some sel0)
      let ?cr = "case data_ns d of
                   Some nsp \<Rightarrow> api_create (CreateElementNS nsp (sel_tag sel0))
                                 (ElementNode (sel_tag sel0) (Some nsp)) [] ?st0
                 | None \<Rightarrow> api_create (CreateElement (sel_tag sel0))
                             (ElementNode (sel_tag sel0) None) [] ?st0"
      obtain n st1' where c: "?cr = (n, st1')" by (cases ?cr)
      let ?st2 = "module_create_hooks eng i (set_sel_attrs sel0 n st1')"
      let ?kids = "case ch of
                     Some (a, cs) \<Rightarrow>
                       (case createElm_children eng n cs ?st2 of
                          Inl x \<Rightarrow> Inl x
                        | Inr (cs1, st3) \<Rightarrow> Inr (Some (a, cs1), st3))
                   | None \<Rightarrow>
                       (case t of
                          Some t0 \<Rightarrow>
                            (case api_create (CreateTextNode t0) TextNode t0 ?st2 of
                               (c, st3) \<Rightarrow>
                                 (case api_appendChild (Some n) (Some c) st3 of
                                    Inl x \<Rightarrow> Inl x
                                  | Inr (u, st4) \<Rightarrow> Inr (None, st4)))
                        | None \<Rightarrow> Inr (None, ?st2))"
      have fin: "createElm eng (VNode i s k d ch t e) st =
                   (case ?kids of
                      Inl x \<Rightarrow> Inl x
                    | Inr (ch1, st5) \<Rightarrow>
                        (case own_create_hooks (VNode i s k d ch1 t (Some n)) st5 of
                           Inl x \<Rightarrow> Inl x
                         | Inr (u, st6) \<Rightarrow> Inr (VNode i s k d ch1 t (Some n), st6)))"
        using False Some c by (simp add: Let_def cong: option.case_cong sum.case_cong)
      from "1.prems" False Some have dd: "d \<noteq> None" by simp
      have "\<exists>ch1 st5. ?kids = Inr (ch1, st5)"
      proof (cases ch)
        case N: None
        show ?thesis
        proof (cases t)
          case None
          with N show ?thesis by simp
        next
          case (Some t0)
          obtain c0 st3 where c3: "api_create (CreateTextNode t0) TextNode t0 ?st2 = (c0, st3)"
            by (cases "api_create (CreateTextNode t0) TextNode t0 ?st2")
          from api_appendChild_returns [of n c0 st3] N Some c3 show ?thesis by auto
        qed
      next
        case S: (Some acs)
        obtain a cs where acs: "acs = (a, cs)" by (cases acs)
        from "1.prems" False Some S acs have bl: "buildable_list eng cs" by simp
        have "\<exists>cs1 st5. createElm_children eng n cs ?st2 = Inr (cs1, st5)"
          by (rule "1.IH"(2) [OF _ _ _ _ _ _ _ bl])
             (use False Some S acs c in \<open>auto simp: c [symmetric]\<close>)
        with S acs show ?thesis by auto
      qed
      then obtain ch1 st5 where k: "?kids = Inr (ch1, st5)" by blast
      from own_create_hooks_returns [of "VNode i s k d ch1 t (Some n)" st5] dd
      obtain st6 where "own_create_hooks (VNode i s k d ch1 t (Some n)) st5 = Inr ((), st6)"
        by auto
      with fin k show ?thesis by simp
    qed
  qed
next
  case (2 eng n st)
  then show ?case by simp
next
  case (3 eng p c cs st)
  from "3.prems" have bl: "buildable_list eng cs" by simp
  show ?case
  proof (cases c)
    case None
    from "3.IH"(1) [OF None bl] None show ?thesis by auto
  next
    case (Some v)
    from "3.prems" Some have bv: "buildable eng v" by simp
    from "3.IH"(2) [OF Some bv] obtain w1 s1 where a: "createElm eng v st = Inr (w1, s1)"
      by blast
    from createElm_tree(1) [OF a] obtain m where m: "elm w1 = Some m" by blast
    from api_appendChild_returns [of p m s1] obtain s2 where
      b: "api_appendChild (Some p) (elm w1) s1 = Inr ((), s2)" unfolding m by blast
    from "3.IH"(3) [OF Some a refl b refl bl] obtain cs1' st1 where
      r: "createElm_children eng p cs s2 = Inr (cs1', st1)" by blast
    from Some a b r show ?thesis by simp
  qed
qed

lemma createElm_buildable:
  "createElm eng v st = Inr (v1, st1) \<Longrightarrow> buildable eng v"
  "createElm_children eng n cs st = Inr (cs1, st1) \<Longrightarrow> buildable_list eng cs"
proof (induction eng v st and eng n cs st arbitrary: v1 st1 and cs1 st1
    rule: createElm_createElm_children.induct)
  case (1 eng i s k d ch t e st)
  let ?st0 = "call_init i d st"
  show ?case
  proof (cases "s = Some ''!''")
    case True
    then show ?thesis by simp
  next
    case False
    show ?thesis
    proof (cases s)
      case None
      show ?thesis
      proof (cases "if fragments eng then ch else None")
        case N: None
        with None show ?thesis by simp
      next
        case (Some acs)
        obtain a cs where acs: "acs = (a, cs)" by (cases acs)
        from "1.prems" None Some acs have T: "createDocumentFragment eng"
          by (auto simp: Let_def split: if_splits)
        obtain n st1' where c: "api_create CreateDocumentFragment FragmentNode [] ?st0 = (n, st1')"
          by (cases "api_create CreateDocumentFragment FragmentNode [] ?st0")
        from "1.prems" None Some acs T c obtain cs1 where
          r: "createElm_children eng n cs (module_create_hooks eng i st1') = Inr (cs1, st1)"
          by (auto simp: Let_def split: sum.splits if_splits)
        have "buildable_list eng cs"
          by (rule "1.IH"(1) [OF _ _ _ _ _ _ _ r])
             (use False None Some acs T c in \<open>auto simp: c [symmetric]\<close>)
        with None Some acs T show ?thesis by simp
      qed
    next
      case (Some sel0)
      let ?cr = "case data_ns d of
                   Some nsp \<Rightarrow> api_create (CreateElementNS nsp (sel_tag sel0))
                                 (ElementNode (sel_tag sel0) (Some nsp)) [] ?st0
                 | None \<Rightarrow> api_create (CreateElement (sel_tag sel0))
                             (ElementNode (sel_tag sel0) None) [] ?st0"
      obtain n st1' where c: "?cr = (n, st1')" by (cases ?cr)
      let ?st2 = "module_create_hooks eng i (set_sel_attrs sel0 n st1')"
      let ?kids = "case ch of
                     Some (a, cs) \<Rightarrow>
                       (case createElm_children eng n cs ?st2 of
                          Inl x \<Rightarrow> Inl x
                        | Inr (cs1, st3) \<Rightarrow> Inr (Some (a, cs1), st3))
                   | None \<Rightarrow>
                       (case t of
                          Some t0 \<Rightarrow>
                            (case api_create (CreateTextNode t0) TextNode t0 ?st2 of
                               (c, st3) \<Rightarrow>
                                 (case api_appendChild (Some n) (Some c) st3 of
                                    Inl x \<Rightarrow> Inl x
                                  | Inr (u, st4) \<Rightarrow> Inr (None, st4)))
                        | None \<Rightarrow> Inr (None, ?st2))"
      have fin: "createElm eng (VNode i s k d ch t e) st =
                   (case ?kids of
                      Inl x \<Rightarrow> Inl x
                    | Inr (ch1, st5) \<Rightarrow>
                        (case own_create_hooks (VNode i s k d ch1 t (Some n)) st5 of
                           Inl x \<Rightarrow> Inl x
                         | Inr (u, st6) \<Rightarrow> Inr (VNode i s k d ch1 t (Some n), st6)))"
        using False Some c by (simp add: Let_def cong: option.case_cong sum.case_cong)
      from "1.prems" fin obtain ch1 st5 u where
        k: "?kids = Inr (ch1, st5)"
        and o: "own_create_hooks (VNode i s k d ch1 t (Some n)) st5 = Inr (u, st1)"
        by (auto split: sum.splits)
      from o have dd: "d \<noteq> None" by (cases d) (auto simp: own_create_hooks_def)
      have "case ch of None \<Rightarrow> True | Some (a, cs) \<Rightarrow> buildable_list eng cs"
      proof (cases ch)
        case None
        then show ?thesis by simp
      next
        case S: (Some acs)
        obtain a cs where acs: "acs = (a, cs)" by (cases acs)
        from k S acs obtain cs1 where
          r: "createElm_children eng n cs ?st2 = Inr (cs1, st5)"
          by (auto split: sum.splits)
        have "buildable_list eng cs"
          by (rule "1.IH"(2) [OF _ _ _ _ _ _ _ r])
             (use False Some S acs c in \<open>auto simp: c [symmetric]\<close>)
        with S acs show ?thesis by simp
      qed
      with dd False Some show ?thesis by simp
    qed
  qed
next
  case (2 eng n st)
  then show ?case by simp
next
  case (3 eng p c cs st)
  show ?case
  proof (cases c)
    case None
    with "3.prems" obtain cs1' where
      r: "createElm_children eng p cs st = Inr (cs1', st1)"
      by (auto split: sum.splits)
    from "3.IH"(1) [OF None r] None show ?thesis by simp
  next
    case (Some v)
    with "3.prems" obtain w1 s1 u s2 cs1' where
      a: "createElm eng v st = Inr (w1, s1)"
      and b: "api_appendChild (Some p) (elm w1) s1 = Inr (u, s2)"
      and r: "createElm_children eng p cs s2 = Inr (cs1', st1)"
      by (auto split: sum.splits)
    from "3.IH"(2) [OF Some a] "3.IH"(3) [OF Some a refl b refl r] Some show ?thesis by simp
  qed
qed


section \<open>A root without a parent\<close>





section \<open>Replacing the root\<close>

subsection \<open>What removing the old root does to the host tree\<close>

lemma rmCb_dom:
  assumes "rm_dom c e h s" and "parent_of h e \<noteq> None"
  shows "\<exists>s'. rmCb c s = Inr ((), s') \<and> rm_dom c e h s'"
proof -
  obtain l where l: "rmcbs s ! c = (Some e, l)"
    using assms by (cases "rmcbs s ! c") (simp add: rm_dom_def)
  show ?thesis
  proof (cases "l = 1")
    case True
    from assms(2) obtain p where p: "parent_of h e = Some p" by auto
    with assms l True show ?thesis
      by (simp add: rm_dom_def rmCb_def api_parentNode_def api_removeChild_def removeChild_def
          emit_def parentNode_def Let_def)
  next
    case False
    with assms l show ?thesis
      by (auto simp: rm_dom_def rmCb_def Let_def)
  qed
qed

lemma emit_dom_inv: "rm_dom c e h s \<Longrightarrow> rm_dom c e h (emit es s)"
  by (simp add: rm_dom_def emit_def)

lemma rm_times_dom:
  "rm_dom c e h s \<Longrightarrow> parent_of h e \<noteq> None \<Longrightarrow>
     \<exists>s'. rm_times k c s = Inr ((), s') \<and> rm_dom c e h s'"
proof (induction k arbitrary: s)
  case 0
  then show ?case by simp
next
  case (Suc k)
  from rmCb_dom [OF Suc.prems] obtain s1 where
    s1: "rmCb c s = Inr ((), s1)" "rm_dom c e h s1" by blast
  from Suc.IH [OF s1(2) Suc.prems(2)] s1 show ?case by auto
qed

lemma module_remove_hooks_dom:
  "rm_dom c e h s \<Longrightarrow> parent_of h e \<noteq> None \<Longrightarrow>
     \<exists>s'. module_remove_hooks c i j ks s = Inr ((), s') \<and> rm_dom c e h s'"
proof (induction ks arbitrary: s j)
  case Nil
  then show ?case by simp
next
  case (Cons k ks)
  have "rm_dom c e h (emit [ModuleRemove j i] s)"
    by (rule emit_dom_inv [OF Cons.prems(1)])
  from rm_times_dom [OF this Cons.prems(2), of k] obtain s1 where
    s1: "rm_times k c (emit [ModuleRemove j i] s) = Inr ((), s1)" "rm_dom c e h s1"
    by auto
  from Cons.IH [OF s1(2) Cons.prems(2), of "Suc j"] s1 show ?case by auto
qed

lemma removeVnode_dom:
  assumes "elm ch = Some e" and "parent_of (dom st) e = Some p"
  shows "\<exists>st1. removeVnode eng (Some p) ch st = Inr ((), st1) \<and>
           (dom st1 = dom st \<or> dom st1 = detach e (dom st))"
proof (cases "sel ch = None")
  case True
  with assms show ?thesis
    by (simp add: removeVnode_def api_removeChild_def removeChild_def emit_def Let_def)
next
  case False
  let ?rm = "length (rmcbs st)"
  let ?D = "concat (map (node_destroy_events eng) (destroyed_nodes ch))"
  let ?L = "int (length (cbs_remove (engine_cbs eng))) + 1"
  let ?st2 = "(emit ?D st)\<lparr>rmcbs := rmcbs (emit ?D st) @ [(Some e, ?L)]\<rparr>"
  have pne: "parent_of (dom st) e \<noteq> None" using assms(2) by simp
  have inv2: "rm_dom ?rm e (dom st) ?st2"
    by (simp add: rm_dom_def emit_def)
  from module_remove_hooks_dom [OF inv2 pne, of "vid ch" 0 "cbs_remove (engine_cbs eng)"]
  obtain st3 where st3:
    "module_remove_hooks ?rm (vid ch) 0 (cbs_remove (engine_cbs eng)) ?st2 = Inr ((), st3)"
    "rm_dom ?rm e (dom st) st3"
    by auto
  have unfold: "removeVnode eng (Some p) ch st =
      (case hook_remove_of ch of
         Some k \<Rightarrow> rm_times k ?rm (emit [HookRemove (vid ch)] st3)
       | None \<Rightarrow> rmCb ?rm st3)"
    using False assms(1) st3(1)
    by (simp add: removeVnode_def createRmCb_def invokeDestroyHook_emit Let_def
        cong: option.case_cong)
  have "\<exists>st1. removeVnode eng (Some p) ch st = Inr ((), st1) \<and> rm_dom ?rm e (dom st) st1"
  proof (cases "hook_remove_of ch")
    case None
    from rmCb_dom [OF st3(2) pne] None unfold show ?thesis by simp
  next
    case (Some k)
    have "rm_dom ?rm e (dom st) (emit [HookRemove (vid ch)] st3)"
      by (rule emit_dom_inv [OF st3(2)])
    from rm_times_dom [OF this pne, of k] Some unfold show ?thesis by simp
  qed
  then show ?thesis by (auto simp: rm_dom_def split: if_splits)
qed

subsection \<open>Putting the new root in\<close>

lemma api_insertBefore_tree:
  "api_insertBefore (Some p) (Some c) r st = Inr (u, st1) \<Longrightarrow> parent_of (dom st) c = None \<Longrightarrow>
     fresh (dom st1) = fresh (dom st) \<and>
     parent_of (dom st1) = (parent_of (dom st))(c \<mapsto> p) \<and>
     kids (dom st1) =
       (kids (dom st))(p := (case r of None \<Rightarrow> kids (dom st) p @ [c]
                             | Some r0 \<Rightarrow> ins_before c r0 (kids (dom st) p)))"
  by (auto simp: api_insertBefore_def insertBefore_def detach_def emit_def Let_def
      split: sum.splits option.splits if_splits)


lemma nextSibling_cong:
  "parent_of h' e = parent_of h e \<Longrightarrow> parent_of h e = Some p \<Longrightarrow> kids h' p = kids h p \<Longrightarrow>
     nextSibling h' e = nextSibling h e"
  by (simp add: nextSibling_def)

lemma replace_root_tree:
  assumes ns: "\<not> sameVnode oldVnode vnode"
    and pb: "patch_body eng oldVnode vnode st0 = Inr (n1, st6)"
    and e: "elm oldVnode = Some e" and par: "parent_of (dom st0) e = Some p"
    and lt: "e < fresh (dom st0)" "p < fresh (dom st0)"
  shows "elm n1 = Some (fresh (dom st0)) \<and> fresh (dom st0) < fresh (dom st6) \<and>
         parent_of (dom st6) (fresh (dom st0)) = Some p \<and>
         (let K = (case nextSibling (dom st0) e of
                     None \<Rightarrow> kids (dom st0) p @ [fresh (dom st0)]
                   | Some r \<Rightarrow> ins_before (fresh (dom st0)) r (kids (dom st0) p))
          in kids (dom st6) p = K \<or> kids (dom st6) p = remove1 e K) \<and>
         placed_in eng (dom st6) (fresh (dom st0)) (fresh (dom st6)) n1"
proof -
  let ?f = "fresh (dom st0)"
  have pn: "api_parentNode (elm oldVnode) st0 = Inr (Some p, st0)"
    using e par by (simp add: api_parentNode_def parentNode_def)
  from pb ns pn obtain m1 st2 where c0: "createElm eng vnode st0 = Inr (m1, st2)"
    by (cases "createElm eng vnode st0") (auto simp: patch_body_def)
  from pb ns pn c0 have m1: "m1 = n1"
    by (auto simp: patch_body_def split: sum.splits)
  from c0 m1 have c: "createElm eng vnode st0 = Inr (n1, st2)" by simp
  from pb ns pn c obtain sib st3 st4 where
    n: "api_nextSibling (elm oldVnode) st2 = Inr (sib, st3)"
    and a: "api_insertBefore (Some p) (elm n1) sib st3 = Inr ((), st4)"
    and b: "removeVnodes eng (Some p) [Some oldVnode] 0 0 st4 = Inr ((), st6)"
    by (auto simp: patch_body_def split: sum.splits)
  from createElm_tree(1) [OF c] have e1: "elm n1 = Some ?f" and lt2: "?f < fresh (dom st2)"
    and pf: "parent_of (dom st2) ?f = None"
    and fr: "\<And>m. m < ?f \<Longrightarrow> parent_of (dom st2) m = parent_of (dom st0) m \<and>
                          kids (dom st2) m = kids (dom st0) m"
    and pl: "placed_in eng (dom st2) ?f (fresh (dom st2)) n1"
    by simp_all
  from n e have st3: "st3 = st2" and sib: "sib = nextSibling (dom st2) e"
    by (auto simp: api_nextSibling_def)
  have sib0: "sib = nextSibling (dom st0) e"
    unfolding sib using fr [OF lt(1)] fr [OF lt(2)] par
    by (intro nextSibling_cong) auto
  from api_insertBefore_tree [OF a [unfolded e1 st3] pf] have f4: "fresh (dom st4) = fresh (dom st2)"
    and p4: "parent_of (dom st4) = (parent_of (dom st2))(?f \<mapsto> p)"
    and k4: "kids (dom st4) =
       (kids (dom st2))(p := (case sib of None \<Rightarrow> kids (dom st2) p @ [?f]
                               | Some r0 \<Rightarrow> ins_before ?f r0 (kids (dom st2) p)))"
    by simp_all
  have pe4: "parent_of (dom st4) e = Some p"
    using p4 lt(1) fr [OF lt(1)] par by simp
  from removeVnode_dom [OF e pe4, where eng = eng] b
  have d6: "dom st6 = dom st4 \<or> dom st6 = detach e (dom st4)"
    by (simp add: removeVnodes_single)
  let ?K = "case nextSibling (dom st0) e of
              None \<Rightarrow> kids (dom st0) p @ [?f]
            | Some r \<Rightarrow> ins_before ?f r (kids (dom st0) p)"
  have kp2: "kids (dom st2) p = kids (dom st0) p" using fr [OF lt(2)] by simp
  have kp4: "kids (dom st4) p = ?K"
    using k4 sib0 kp2 by (simp split: option.splits)
  have f6: "fresh (dom st6) = fresh (dom st2)"
    using d6 f4 pe4 by (auto simp: detach_def)
  have p6: "parent_of (dom st6) ?f = Some p"
    using d6 p4 pe4 lt(1) by (auto simp: detach_def)
  have k6: "kids (dom st6) p = ?K \<or> kids (dom st6) p = remove1 e ?K"
    using d6 kp4 pe4 by (auto simp: detach_def)
  have pl6: "placed_in eng (dom st6) ?f (fresh (dom st2)) n1"
  proof (rule placed_in_cong(1) [OF pl])
    fix m assume m: "?f \<le> m" "m < fresh (dom st2)"
    then have "m \<noteq> p" using lt(2) by simp
    then show "kids (dom st6) m = kids (dom st2) m"
      using d6 k4 pe4 by (auto simp: detach_def)
  next
    fix m assume m: "?f < m" "m < fresh (dom st2)"
    then have "m \<noteq> e" "m \<noteq> ?f" using lt(1) by simp_all
    then show "parent_of (dom st6) m = parent_of (dom st2) m"
      using d6 p4 pe4 by (auto simp: detach_def)
  qed
  from e1 lt2 f6 p6 k6 pl6 show ?thesis by (simp add: Let_def)
qed


section \<open>The nodes queued for \<open>insert\<close>\<close>

lemma take_eq_append: "(take (length xs) ys = xs) = (\<exists>w. ys = xs @ w)"
  by (metis append_eq_conv_conj append_take_drop_id)

lemma quiet_iff:
  "quiet st st' =
     ((\<exists>w. trace st' = trace st @ w) \<and> insertedVnodeQueue st' = insertedVnodeQueue st \<and>
      fresh (dom st) \<le> fresh (dom st'))"
  by (simp add: quiet_def take_eq_append)

lemma built_step_iff:
  "built_step lo X st st' =
     (\<exists>w q. trace st' = trace st @ w \<and> insertedVnodeQueue st' = insertedVnodeQueue st @ q \<and>
        fresh (dom st) \<le> fresh (dom st') \<and> distinct (map elm q) \<and>
        list_all (queued_ok lo (fresh (dom st')) X w) q)"
  by (auto simp: built_step_def take_eq_append new_events_def new_queued_def)

lemma queued_ok_mono:
  "queued_ok lo hi X w u \<Longrightarrow> lo' \<le> lo \<Longrightarrow> hi \<le> hi' \<Longrightarrow> set X \<subseteq> set X' \<Longrightarrow>
     queued_ok lo' hi' X' (w0 @ w @ w1) u"
  by (auto simp: queued_ok_def split: option.splits)

lemma quiet_refl [simp]: "quiet st st"
  by (simp add: quiet_iff)

lemma quiet_trans: "quiet st s1 \<Longrightarrow> quiet s1 s2 \<Longrightarrow> quiet st s2"
  by (auto simp: quiet_iff)

lemma quiet_emit [simp]: "quiet st (emit es st)"
  by (simp add: quiet_iff emit_def)

lemma quiet_built: "quiet st st' \<Longrightarrow> built_step lo [] st st'"
  by (auto simp: quiet_iff built_step_iff)

lemma built_step_trans:
  assumes "built_step lo X st s1" and "built_step lo' Y s1 s2"
    and "lo \<le> lo'" and "fresh (dom s1) \<le> lo'"
  shows "built_step lo (X @ Y) st s2"
proof -
  from assms(1) obtain w1 q1 where 1: "trace s1 = trace st @ w1"
    "insertedVnodeQueue s1 = insertedVnodeQueue st @ q1" "fresh (dom st) \<le> fresh (dom s1)"
    "distinct (map elm q1)" "list_all (queued_ok lo (fresh (dom s1)) X w1) q1"
    unfolding built_step_iff by blast
  from assms(2) obtain w2 q2 where 2: "trace s2 = trace s1 @ w2"
    "insertedVnodeQueue s2 = insertedVnodeQueue s1 @ q2" "fresh (dom s1) \<le> fresh (dom s2)"
    "distinct (map elm q2)" "list_all (queued_ok lo' (fresh (dom s2)) Y w2) q2"
    unfolding built_step_iff by blast
  have a: "list_all (queued_ok lo (fresh (dom s2)) (X @ Y) (w1 @ w2)) q1"
    using 1(5) 2(3) queued_ok_mono [where ?w0.0 = "[]" and lo' = lo and lo = lo and X = X]
    by (fastforce simp: list_all_iff)
  have b: "list_all (queued_ok lo (fresh (dom s2)) (X @ Y) (w1 @ w2)) q2"
    using 2(5) assms(3) queued_ok_mono [where ?w1.0 = "[]" and lo = lo' and X = Y]
    by (fastforce simp: list_all_iff)
  have d: "set (map elm q1) \<inter> set (map elm q2) = {}"
  proof -
    have "\<exists>c. elm u = Some c \<and> c < fresh (dom s1)" if "u \<in> set q1" for u
      using 1(5) that by (auto simp: list_all_iff queued_ok_def split: option.splits)
    moreover have "\<exists>c. elm u = Some c \<and> fresh (dom s1) \<le> c" if "u \<in> set q2" for u
      using 2(5) that assms(4) by (auto simp: list_all_iff queued_ok_def split: option.splits)
    ultimately show ?thesis by fastforce
  qed
  show ?thesis
    unfolding built_step_iff
    apply (rule exI [of _ "w1 @ w2"], rule exI [of _ "q1 @ q2"])
    using 1 2 a b d by simp
qed

lemma built_step_quiet_then:
  "quiet st s1 \<Longrightarrow> built_step lo X s1 s2 \<Longrightarrow> built_step lo X st s2"
  by (auto simp: quiet_iff built_step_iff queued_ok_def list_all_iff split: option.splits)


lemma built_step_then_quiet:
  "built_step lo X st s1 \<Longrightarrow> quiet s1 s2 \<Longrightarrow> built_step lo X st s2"
  by (auto simp: quiet_iff built_step_iff queued_ok_def list_all_iff split: option.splits)

lemma built_step_resolve:
  assumes "built_step lo [c] st s1" and "trace s2 = trace s1 @ w2"
    and "list_ex (is_insertion c) w2"
    and "insertedVnodeQueue s2 = insertedVnodeQueue s1" and "fresh (dom s1) \<le> fresh (dom s2)"
  shows "built_step lo [] st s2"
proof -
  from assms(1) obtain w1 q1 where 1: "trace s1 = trace st @ w1"
    "insertedVnodeQueue s1 = insertedVnodeQueue st @ q1" "fresh (dom st) \<le> fresh (dom s1)"
    "distinct (map elm q1)" "list_all (queued_ok lo (fresh (dom s1)) [c] w1) q1"
    unfolding built_step_iff by blast
  have "list_all (queued_ok lo (fresh (dom s2)) [] (w1 @ w2)) q1"
    using 1(5) assms(3,5) by (auto simp: list_all_iff queued_ok_def split: option.splits)
  then show ?thesis
    unfolding built_step_iff
    apply (intro exI [of _ "w1 @ w2"] exI [of _ q1])
    using 1 assms by simp
qed

lemma built_step_add:
  assumes "built_step lo' X st s5" and "trace s1 = trace s5 @ w2"
    and "insertedVnodeQueue s1 = insertedVnodeQueue s5 @ [u]" and "dom s1 = dom s5"
    and "has_insert u" and "sel u \<noteq> None" and "sel u \<noteq> Some ''!''" and "elm u = Some n"
    and "lo \<le> n" and "n < lo'" and "n < fresh (dom s5)"
  shows "built_step lo (n # X) st s1"
proof -
  from assms(1) obtain w1 q1 where 1: "trace s5 = trace st @ w1"
    "insertedVnodeQueue s5 = insertedVnodeQueue st @ q1" "fresh (dom st) \<le> fresh (dom s5)"
    "distinct (map elm q1)" "list_all (queued_ok lo' (fresh (dom s5)) X w1) q1"
    unfolding built_step_iff by blast
  have a: "list_all (queued_ok lo (fresh (dom s1)) (n # X) (w1 @ w2)) q1"
    using 1(5) assms(4,9,10) by (auto simp: list_all_iff queued_ok_def split: option.splits)
  have b: "queued_ok lo (fresh (dom s1)) (n # X) (w1 @ w2) u"
    using assms(4-11) by (simp add: queued_ok_def)
  have c: "Some n \<notin> set (map elm q1)"
    using 1(5) assms(10) by (auto simp: list_all_iff queued_ok_def split: option.splits)
  show ?thesis
    unfolding built_step_iff
    apply (intro exI [of _ "w1 @ w2"] exI [of _ "q1 @ [u]"])
    using 1 assms(2,3,4,8) a b c by simp
qed

subsection \<open>The steps of \<open>createElm\<close>\<close>

lemma api_create_quiet: "api_create c k t st = (n, st1) \<Longrightarrow> quiet st st1"
  by (auto simp: api_create_def new_node_def emit_def quiet_iff)

lemma call_init_quiet [simp]: "quiet st (call_init i d st)"
  by (simp add: call_init_def split: option.splits)

lemma module_create_hooks_quiet [simp]: "quiet st (module_create_hooks eng i st)"
  by (simp add: module_create_hooks_def)

lemma set_sel_attrs_quiet [simp]: "quiet st (set_sel_attrs s n st)"
  by (simp add: set_sel_attrs_def api_setAttribute_def setAttribute_def emit_def quiet_iff Let_def)

lemma api_appendChild_quiet:
  "api_appendChild p n st = Inr (u, st1) \<Longrightarrow>
     trace st1 = trace st @ [Api (AppendChild p n)] \<and>
     insertedVnodeQueue st1 = insertedVnodeQueue st \<and> fresh (dom st1) = fresh (dom st)"
  by (auto simp: api_appendChild_def insertBefore_def detach_def emit_def Let_def
      split: option.splits sum.splits)

lemma api_insertBefore_quiet:
  "api_insertBefore p n r st = Inr (u, st1) \<Longrightarrow>
     trace st1 = trace st @ [Api (InsertBefore p n r)] \<and>
     insertedVnodeQueue st1 = insertedVnodeQueue st \<and> fresh (dom st1) = fresh (dom st)"
  by (auto simp: api_insertBefore_def insertBefore_def detach_def emit_def Let_def
      split: option.splits sum.splits if_splits)

lemma own_create_hooks_step:
  "own_create_hooks v st = Inr (u, st1) \<Longrightarrow>
     (\<exists>w. trace st1 = trace st @ w) \<and> dom st1 = dom st \<and>
     insertedVnodeQueue st1 = insertedVnodeQueue st @ (if has_insert v then [v] else [])"
  by (auto simp: own_create_hooks_def emit_def Let_def has_insert_def data_hook.simps
      split: option.splits if_splits)


lemma built_step_mono:
  "built_step lo X st s \<Longrightarrow> lo' \<le> lo \<Longrightarrow> set X \<subseteq> set X' \<Longrightarrow> built_step lo' X' st s"
  by (auto simp: built_step_iff queued_ok_def list_all_iff split: option.splits)

lemma built_step_fresh: "built_step lo X st s \<Longrightarrow> fresh (dom st) \<le> fresh (dom s)"
  by (simp add: built_step_def)

lemma quiet_fresh: "quiet st s \<Longrightarrow> fresh (dom st) \<le> fresh (dom s)"
  by (simp add: quiet_def)

subsection \<open>What \<open>createElm\<close> queues\<close>

lemma createElm_built:
  "createElm eng v st = Inr (v1, st1) \<Longrightarrow>
     built_step (fresh (dom st)) [fresh (dom st)] st st1"
  "createElm_children eng p cs st = Inr (cs1, st1) \<Longrightarrow> built_step (fresh (dom st)) [] st st1"
proof (induction eng v st and eng p cs st arbitrary: v1 st1 and cs1 st1
    rule: createElm_createElm_children.induct)
  case (1 eng i s k d ch t e st)
  let ?st0 = "call_init i d st"
  let ?f = "fresh (dom st)"
  have q0: "quiet st ?st0" by simp
  show ?case
  proof (cases "s = Some ''!''")
    case True
    with "1.prems" have "quiet ?st0 st1"
      by (auto simp: Let_def split: prod.splits dest: api_create_quiet)
    from quiet_built [OF quiet_trans [OF q0 this], where lo = ?f] show ?thesis
      by (rule built_step_mono) simp_all
  next
    case False
    show ?thesis
    proof (cases s)
      case None
      show ?thesis
      proof (cases "if fragments eng then ch else None")
        case N: None
        with None "1.prems" have "quiet ?st0 st1"
          by (auto simp: Let_def split: prod.splits if_splits dest: api_create_quiet)
        from quiet_built [OF quiet_trans [OF q0 this], where lo = ?f] show ?thesis
          by (rule built_step_mono) simp_all
      next
        case (Some acs)
        obtain a cs where acs: "acs = (a, cs)" by (cases acs)
        from "1.prems" None Some acs have T: "createDocumentFragment eng"
          by (auto simp: Let_def split: if_splits)
        obtain n st1' where c: "api_create CreateDocumentFragment FragmentNode [] ?st0 = (n, st1')"
          by (cases "api_create CreateDocumentFragment FragmentNode [] ?st0")
        let ?st2 = "module_create_hooks eng i st1'"
        from "1.prems" None Some acs T c obtain cs1 where
          r: "createElm_children eng n cs ?st2 = Inr (cs1, st1)"
          by (auto simp: Let_def split: sum.splits if_splits)
        have q2: "quiet st ?st2"
          by (intro quiet_trans [OF q0] quiet_trans [OF api_create_quiet [OF c]]) simp
        have ih: "built_step (fresh (dom ?st2)) [] ?st2 st1"
          by (rule "1.IH"(1) [OF _ _ _ _ _ _ _ r])
             (use False None Some acs T c in \<open>auto simp: c [symmetric]\<close>)
        from built_step_quiet_then [OF q2 ih] show ?thesis
          by (rule built_step_mono) (use quiet_fresh [OF q2] in simp_all)
      qed
    next
      case (Some sel0)
      let ?cr = "case data_ns d of
                   Some nsp \<Rightarrow> api_create (CreateElementNS nsp (sel_tag sel0))
                                 (ElementNode (sel_tag sel0) (Some nsp)) [] ?st0
                 | None \<Rightarrow> api_create (CreateElement (sel_tag sel0))
                             (ElementNode (sel_tag sel0) None) [] ?st0"
      obtain n st1' where c: "?cr = (n, st1')" by (cases ?cr)
      have "n = ?f \<and> fresh (dom st1') = Suc ?f \<and> quiet ?st0 st1'"
        using c by (auto split: option.splits dest: api_create_tree api_create_quiet)
      then have n: "n = ?f" and f1: "fresh (dom st1') = Suc ?f" and q1: "quiet ?st0 st1'"
        by simp_all
      let ?st2 = "module_create_hooks eng i (set_sel_attrs sel0 n st1')"
      have f2: "fresh (dom ?st2) = Suc ?f" using f1 by simp
      have q2: "quiet st ?st2"
        by (intro quiet_trans [OF q0] quiet_trans [OF q1]
            quiet_trans [OF set_sel_attrs_quiet module_create_hooks_quiet])
      let ?kids = "case ch of
                     Some (a, cs) \<Rightarrow>
                       (case createElm_children eng n cs ?st2 of
                          Inl x \<Rightarrow> Inl x
                        | Inr (cs1, st3) \<Rightarrow> Inr (Some (a, cs1), st3))
                   | None \<Rightarrow>
                       (case t of
                          Some t0 \<Rightarrow>
                            (case api_create (CreateTextNode t0) TextNode t0 ?st2 of
                               (c, st3) \<Rightarrow>
                                 (case api_appendChild (Some n) (Some c) st3 of
                                    Inl x \<Rightarrow> Inl x
                                  | Inr (u, st4) \<Rightarrow> Inr (None, st4)))
                        | None \<Rightarrow> Inr (None, ?st2))"
      have fin: "createElm eng (VNode i s k d ch t e) st =
                   (case ?kids of
                      Inl x \<Rightarrow> Inl x
                    | Inr (ch1, st5) \<Rightarrow>
                        (case own_create_hooks (VNode i s k d ch1 t (Some n)) st5 of
                           Inl x \<Rightarrow> Inl x
                         | Inr (u, st6) \<Rightarrow> Inr (VNode i s k d ch1 t (Some n), st6)))"
        using False Some c by (simp add: Let_def cong: option.case_cong sum.case_cong)
      from "1.prems" fin obtain ch1 st5 u where
        k: "?kids = Inr (ch1, st5)"
        and o: "own_create_hooks (VNode i s k d ch1 t (Some n)) st5 = Inr (u, st1)"
        and v1: "v1 = VNode i s k d ch1 t (Some n)"
        by (auto split: sum.splits)
      have b5: "built_step (Suc ?f) [] ?st2 st5"
      proof (cases ch)
        case N: None
        show ?thesis
        proof (cases t)
          case None
          with N k show ?thesis by (auto intro: quiet_built)
        next
          case (Some t0)
          obtain c0 st3 where c3: "api_create (CreateTextNode t0) TextNode t0 ?st2 = (c0, st3)"
            by (cases "api_create (CreateTextNode t0) TextNode t0 ?st2")
          from k N Some c3 obtain u' where
            ap: "api_appendChild (Some n) (Some c0) st3 = Inr (u', st5)"
            by (auto split: sum.splits)
          from api_appendChild_quiet [OF ap] have "quiet st3 st5" by (simp add: quiet_iff)
          from quiet_trans [OF api_create_quiet [OF c3] this] show ?thesis
            by (rule quiet_built)
        qed
      next
        case S: (Some acs)
        obtain a cs where acs: "acs = (a, cs)" by (cases acs)
        from k S acs obtain cs1 where
          r: "createElm_children eng n cs ?st2 = Inr (cs1, st5)"
          by (auto split: sum.splits)
        have "built_step (fresh (dom ?st2)) [] ?st2 st5"
          by (rule "1.IH"(2) [OF _ _ _ _ _ _ _ r])
             (use False Some S acs c in \<open>auto simp: c [symmetric]\<close>)
        with f2 show ?thesis by simp
      qed
      have b5': "built_step (Suc ?f) [] st st5" by (rule built_step_quiet_then [OF q2 b5])
      have lt5: "?f < fresh (dom st5)" using built_step_fresh [OF b5] f2 by simp
      from own_create_hooks_step [OF o] obtain w where
        w: "trace st1 = trace st5 @ w" and d1: "dom st1 = dom st5"
        and qq: "insertedVnodeQueue st1 = insertedVnodeQueue st5 @
                  (if has_insert (VNode i s k d ch1 t (Some n)) then [VNode i s k d ch1 t (Some n)]
                   else [])"
        by blast
      show ?thesis
      proof (cases "has_insert (VNode i s k d ch1 t (Some n))")
        case True
        have "built_step ?f (?f # []) st st1"
          by (rule built_step_add [OF b5' w _ d1 True, where n = ?f])
             (use qq True False Some n lt5 in simp_all)
        then show ?thesis by simp
      next
        case F: False
        have "quiet st5 st1" using w d1 qq F by (simp add: quiet_iff)
        from built_step_then_quiet [OF b5' this] show ?thesis
          by (rule built_step_mono) simp_all
      qed
    qed
  qed
next
  case (2 eng n st)
  then show ?case by (simp add: quiet_built)
next
  case (3 eng p c cs st)
  show ?case
  proof (cases c)
    case None
    with "3.prems" obtain cs1' where
      r: "createElm_children eng p cs st = Inr (cs1', st1)"
      by (auto split: sum.splits)
    from "3.IH"(1) [OF None r] show ?thesis .
  next
    case (Some v)
    with "3.prems" obtain w1 s1 u s2 cs1' where
      a: "createElm eng v st = Inr (w1, s1)"
      and b: "api_appendChild (Some p) (elm w1) s1 = Inr (u, s2)"
      and r: "createElm_children eng p cs s2 = Inr (cs1', st1)"
      by (auto split: sum.splits)
    let ?f = "fresh (dom st)"
    from createElm_tree(1) [OF a] have e1: "elm w1 = Some ?f" by simp
    note A = "3.IH"(2) [OF Some a]
    from api_appendChild_quiet [OF b] e1 have
      t2: "trace s2 = trace s1 @ [Api (AppendChild (Some p) (Some ?f))]"
      and q2: "insertedVnodeQueue s2 = insertedVnodeQueue s1"
      and f2: "fresh (dom s2) = fresh (dom s1)" by simp_all
    have A2: "built_step ?f [] st s2"
      by (rule built_step_resolve [OF A t2 _ q2]) (simp_all add: f2)
    note B = "3.IH"(3) [OF Some a refl b refl r]
    have "built_step ?f ([] @ []) st st1"
      by (rule built_step_trans [OF A2 B]) (use built_step_fresh [OF A2] in simp_all)
    then show ?thesis by simp
  qed
qed


subsection \<open>Steps that queue nothing\<close>

lemma fresh_emit [simp]: "fresh (dom (emit es s)) = fresh (dom s)"
  by (simp add: emit_def)

lemma fresh_rmCb [simp]: "fresh (dom (state_of (rmCb c s))) = fresh (dom s)"
  by (auto simp: rmCb_def state_of_def api_parentNode_def api_removeChild_def removeChild_def
      detach_def emit_def Let_def split: prod.splits option.splits sum.splits if_splits)

lemma fresh_rm_times [simp]:
  "fresh (dom (state_of (rm_times k c s))) = fresh (dom s)"
proof (induction k arbitrary: s)
  case 0
  then show ?case by (simp add: state_of_def)
next
  case (Suc k)
  show ?case
  proof (cases "rmCb c s")
    case (Inl a)
    with fresh_rmCb [of c s] show ?thesis by (simp add: state_of_def)
  next
    case (Inr b)
    obtain u s1 where b: "b = (u, s1)" by (cases b)
    from fresh_rmCb [of c s] Inr b have "fresh (dom s1) = fresh (dom s)"
      by (simp add: state_of_def)
    with Suc.IH [of s1] Inr b show ?thesis by simp
  qed
qed

lemma fresh_module_remove_hooks [simp]:
  "fresh (dom (state_of (module_remove_hooks c i j ks s))) = fresh (dom s)"
proof (induction ks arbitrary: s j)
  case Nil
  then show ?case by (simp add: state_of_def)
next
  case (Cons k ks)
  show ?case
  proof (cases "rm_times k c (emit [ModuleRemove j i] s)")
    case (Inl x)
    with fresh_rm_times [of k c "emit [ModuleRemove j i] s"] show ?thesis
      by (simp add: state_of_def)
  next
    case (Inr y)
    obtain u s1 where y: "y = (u, s1)" by (cases y)
    from fresh_rm_times [of k c "emit [ModuleRemove j i] s"] Inr y
    have "fresh (dom s1) = fresh (dom s)" by (simp add: state_of_def)
    with Cons.IH [of "Suc j" s1] Inr y show ?thesis by simp
  qed
qed

lemma fresh_removeVnode [simp]:
  "fresh (dom (state_of (removeVnode eng p ch s))) = fresh (dom s)"
proof (cases "sel ch \<noteq> None")
  case False
  then show ?thesis
    by (auto simp: removeVnode_def api_removeChild_def removeChild_def detach_def emit_def
        state_of_def Let_def split: option.splits sum.splits if_splits)
next
  case True
  let ?D = "concat (map (node_destroy_events eng) (destroyed_nodes ch))"
  let ?st2 = "(emit ?D s)\<lparr>rmcbs := rmcbs (emit ?D s) @
                 [(elm ch, int (length (cbs_remove (engine_cbs eng))) + 1)]\<rparr>"
  let ?m = "module_remove_hooks (length (rmcbs s)) (vid ch) 0 (cbs_remove (engine_cbs eng)) ?st2"
  have f2: "fresh (dom (state_of ?m)) = fresh (dom s)"
    by (simp del: emit_emit)
  show ?thesis
  proof (cases ?m)
    case (Inl x)
    with True f2 show ?thesis
      by (simp add: removeVnode_def createRmCb_def invokeDestroyHook_emit Let_def state_of_def)
  next
    case (Inr y)
    obtain u st3 where y: "y = (u, st3)" by (cases y)
    from f2 Inr y have f3: "fresh (dom st3) = fresh (dom s)"
      by (simp add: state_of_def)
    have "fresh (dom (state_of (case hook_remove_of ch of
              Some k \<Rightarrow> rm_times k (length (rmcbs s)) (emit [HookRemove (vid ch)] st3)
            | None \<Rightarrow> rmCb (length (rmcbs s)) st3))) = fresh (dom s)"
      using f3 by (cases "hook_remove_of ch") simp_all
    with True Inr y show ?thesis
      by (simp add: removeVnode_def createRmCb_def invokeDestroyHook_emit Let_def
          cong: option.case_cong)
  qed
qed

lemma fresh_removeVnodes [simp]:
  "fresh (dom (state_of (removeVnodes eng p vs i j st))) = fresh (dom st)"
proof (induction eng p vs i j st rule: removeVnodes.induct)
  case (1 eng parentElm vnodes startIdx endIdx st)
  show ?case
  proof (cases "startIdx \<le> endIdx")
    case False
    then show ?thesis by (subst removeVnodes.simps) (simp add: state_of_def)
  next
    case True
    show ?thesis
    proof (cases "slot vnodes startIdx")
      case None
      with True "1.IH"(1) show ?thesis by (subst removeVnodes.simps) simp
    next
      case (Some ch)
      show ?thesis
      proof (cases "removeVnode eng parentElm ch st")
        case (Inl x)
        with True Some fresh_removeVnode [of eng parentElm ch st] show ?thesis
          by (subst removeVnodes.simps) (simp add: state_of_def)
      next
        case (Inr y)
        obtain u st1 where y: "y = (u, st1)" by (cases y)
        from fresh_removeVnode [of eng parentElm ch st] Inr y
        have "fresh (dom st1) = fresh (dom st)" by (simp add: state_of_def)
        with "1.IH"(2) [OF True Some Inr [unfolded y] refl] True Some Inr y
        show ?thesis by (subst removeVnodes.simps) simp
      qed
    qed
  qed
qed



lemma emits_quiet:
  "emits P st s \<Longrightarrow> insertedVnodeQueue s = insertedVnodeQueue st \<Longrightarrow>
   fresh (dom st) \<le> fresh (dom s) \<Longrightarrow> quiet st s"
  by (auto simp: emits_def quiet_iff)

lemma quiet_result: "quiet st (state_of r) \<Longrightarrow> r = Inr (x, s1) \<Longrightarrow> quiet st s1"
  by (simp add: state_of_def)

lemma removeVnodes_quiet: "quiet st (state_of (removeVnodes eng p vs i j st))"
  by (rule emits_quiet [OF removeVnodes_emits [where S = UNIV]]) simp_all

lemma api_setTextContent_quiet: "quiet st (state_of (api_setTextContent n t st))"
  by (auto simp: api_setTextContent_def setTextContent_def new_node_def emit_def quiet_iff
      state_of_def Let_def split: option.splits)

lemma api_nextSibling_same: "api_nextSibling n st = Inr (x, st1) \<Longrightarrow> st1 = st"
  by (auto simp: api_nextSibling_def split: option.splits)

lemma prepatch_hook_quiet [simp]: "quiet st (prepatch_hook oldVnode vnode st)"
  by (simp add: prepatch_hook_def split: option.splits)

lemma postpatch_hook_quiet [simp]: "quiet st (postpatch_hook oldVnode vnode st)"
  by (simp add: postpatch_hook_def split: option.splits)

lemma update_hooks_quiet [simp]: "quiet st (update_hooks eng oldVnode vnode st)"
  by (auto simp: update_hooks_def Let_def split: option.splits intro: quiet_trans [OF quiet_emit])

subsection \<open>Building during a patch\<close>

lemma built_then:
  "built_step (fresh (dom st)) [] st s1 \<Longrightarrow> built_step (fresh (dom s1)) [] s1 s2 \<Longrightarrow>
     built_step (fresh (dom st)) [] st s2"
  using built_step_trans [of "fresh (dom st)" "[]" st s1 "fresh (dom s1)" "[]" s2]
    built_step_fresh [of "fresh (dom st)" "[]" st s1] by simp

lemma built_insert:
  assumes "createElm eng v st = Inr (v1, s1)"
    and "api_insertBefore p (elm v1) r s1 = Inr (u, s2)"
  shows "built_step (fresh (dom st)) [] st s2"
proof -
  from createElm_tree(1) [OF assms(1)] have e1: "elm v1 = Some (fresh (dom st))" by simp
  from api_insertBefore_quiet [OF assms(2)] e1 have
    t2: "trace s2 = trace s1 @ [Api (InsertBefore p (Some (fresh (dom st))) r)]"
    and q2: "insertedVnodeQueue s2 = insertedVnodeQueue s1"
    and f2: "fresh (dom s2) = fresh (dom s1)" by simp_all
  show ?thesis
    by (rule built_step_resolve [OF createElm_built(1) [OF assms(1)] t2 _ q2])
       (simp_all add: f2)
qed

lemma addVnodes_built:
  "addVnodes eng p b vs i j st = Inr (vs1, st1) \<Longrightarrow> built_step (fresh (dom st)) [] st st1"
proof (induction eng p b vs i j st arbitrary: vs1 st1 rule: addVnodes.induct)
  case (1 eng parentElm beforeElm vnodes startIdx endIdx st)
  show ?case
  proof (cases "startIdx \<le> endIdx")
    case False
    with "1.prems" have "st1 = st" by (subst (asm) addVnodes.simps) simp
    then show ?thesis by (simp add: quiet_built)
  next
    case True
    show ?thesis
    proof (cases "slot vnodes startIdx")
      case None
      with True "1.prems" have
        "addVnodes eng parentElm beforeElm vnodes (startIdx + 1) endIdx st = Inr (vs1, st1)"
        by (subst (asm) addVnodes.simps) simp
      from "1.IH"(1) [OF True None this] show ?thesis .
    next
      case (Some ch)
      from "1.prems" True Some obtain ch1 s1 u s2 where
        a: "createElm eng ch st = Inr (ch1, s1)"
        and b: "api_insertBefore parentElm (elm ch1) beforeElm s1 = Inr (u, s2)"
        and r: "addVnodes eng parentElm beforeElm (vnodes[nat startIdx := Some ch1])
                  (startIdx + 1) endIdx s2 = Inr (vs1, st1)"
        by (subst (asm) addVnodes.simps) (auto split: sum.splits)
      from built_then [OF built_insert [OF a b] "1.IH"(2) [OF True Some a refl b refl r]]
      show ?thesis .
    qed
  qed
qed

lemma insert_new_built:
  "insert_new eng p n ov v st = Inr (v2, st1) \<Longrightarrow> built_step (fresh (dom st)) [] st st1"
  by (auto simp: insert_new_def split: sum.splits intro: built_insert)

lemma quiet_built_then:
  "quiet st s1 \<Longrightarrow> built_step (fresh (dom s1)) [] s1 s2 \<Longrightarrow>
     built_step (fresh (dom st)) [] st s2"
  by (rule built_step_mono [OF built_step_quiet_then]) (auto dest: quiet_fresh)

lemma uc_finish_built:
  assumes "uc_finish eng p v st = Inr (r, st1)"
  shows "built_step (fresh (dom st)) [] st st1"
proof -
  from assms obtain newCh1 s1 where
    a: "(if newStartIdx v \<le> newEndIdx v then
              addVnodes eng p
                (case slot (newCh v) (newEndIdx v + 1) of None \<Rightarrow> None | Some x \<Rightarrow> elm x)
                (newCh v) (newStartIdx v) (newEndIdx v) st
            else Inr (newCh v, st)) = Inr (newCh1, s1)"
    and b: "(if oldStartIdx v \<le> oldEndIdx v then
                   removeVnodes eng p (oldCh v) (oldStartIdx v) (oldEndIdx v) s1
                 else Inr ((), s1)) = Inr ((), st1)"
    by (auto simp: uc_finish_def split: sum.splits)
  from a have 1: "built_step (fresh (dom st)) [] st s1"
    by (auto split: if_splits intro: addVnodes_built quiet_built)
  from b have 2: "quiet s1 st1"
    by (auto split: if_splits dest: quiet_result [OF removeVnodes_quiet])
  from built_step_then_quiet [OF 1 2] show ?thesis .
qed

lemma patch_content_built:
  assumes "patch_content eng oldVnode vnode st = Inr (r, st1)"
  shows "built_step (fresh (dom st)) [] st st1"
proof (cases "vtext vnode")
  case (Some t)
  from assms Some have "quiet st st1"
    by (auto simp: patch_content_def split: if_splits option.splits sum.splits prod.splits
        dest!: quiet_result [OF removeVnodes_quiet] quiet_result [OF api_setTextContent_quiet]
        intro: quiet_trans)
  then show ?thesis by (rule quiet_built)
next
  case None
  show ?thesis
  proof (cases "children vnode")
    case N: None
    from assms None N have "quiet st st1"
      by (auto simp: patch_content_def split: if_splits option.splits sum.splits prod.splits
          dest!: quiet_result [OF removeVnodes_quiet] quiet_result [OF api_setTextContent_quiet])
    then show ?thesis by (rule quiet_built)
  next
    case (Some acs)
    obtain a cs where acs: "acs = (a, cs)" by (cases acs)
    show ?thesis
    proof (cases "children oldVnode")
      case S: (Some oacs)
      with assms None Some acs have "st1 = st"
        by (auto simp: patch_content_def split: prod.splits)
      then show ?thesis by (simp add: quiet_built)
    next
      case N: None
      from assms None Some acs N obtain s1 cs1 where
        a: "(if vtext oldVnode \<noteq> None then api_setTextContent (elm vnode) [] st
             else Inr ((), st)) = Inr ((), s1)"
        and b: "addVnodes eng (elm vnode) None cs 0 (int (length cs) - 1) s1 = Inr (cs1, st1)"
        by (auto simp: patch_content_def split: sum.splits)
      from a have "quiet st s1"
        by (auto split: if_splits dest: quiet_result [OF api_setTextContent_quiet])
      from quiet_built_then [OF this addVnodes_built [OF b]] show ?thesis .
    qed
  qed
qed


lemma api_insertBefore_step: "api_insertBefore p n r st = Inr (u, st1) \<Longrightarrow> quiet st st1"
  by (drule api_insertBefore_quiet) (simp add: quiet_iff)

lemma built_quiet_built:
  "built_step (fresh (dom st)) [] st s1 \<Longrightarrow> quiet s1 s2 \<Longrightarrow>
   built_step (fresh (dom s2)) [] s2 s3 \<Longrightarrow> built_step (fresh (dom st)) [] st s3"
  by (rule built_then [OF built_step_then_quiet])

lemma patch_built:
  "patchVnode eng oldVnode vnode st = Inr (r, st1) \<Longrightarrow> built_step (fresh (dom st)) [] st st1"
  "updateChildren eng parentElm oldCh0 newCh0 st = Inr (r', st1) \<Longrightarrow>
     built_step (fresh (dom st)) [] st st1"
  "updateChildren_loop eng parentElm ch0 v st = Inr (r', st1) \<Longrightarrow>
     built_step (fresh (dom st)) [] st st1"
proof (induction eng oldVnode vnode st and eng parentElm oldCh0 newCh0 st
    and eng parentElm ch0 v st arbitrary: r st1 and r' st1 and r' st1
    rule: patchVnode_updateChildren_updateChildren_loop.induct)
  case (1 eng oldVnode vnode st)
  let ?st1 = "prepatch_hook oldVnode vnode st"
  have q1: "quiet st ?st1" by simp
  show ?case
  proof (cases "vid oldVnode = vid vnode")
    case True
    with "1.prems" have "st1 = ?st1" by (subst (asm) patchVnode.simps) (simp add: Let_def)
    with q1 show ?thesis by (simp add: quiet_built)
  next
    case False
    let ?upd = "update_needed oldVnode vnode"
    let ?vnode1 = "set_elm (elm oldVnode) vnode"
    let ?vnode2 = "if ?upd then default_data ?vnode1 else ?vnode1"
    let ?old2 = "if ?upd then default_data oldVnode else oldVnode"
    let ?st2 = "if ?upd then update_hooks eng ?old2 ?vnode2 ?st1 else ?st1"
    let ?R = "case (vtext vnode, children oldVnode, children vnode) of
                (None, Some (oa, ocs), Some (a, cs)) \<Rightarrow>
                  if oa \<noteq> a then
                    (case updateChildren eng (elm ?vnode2) ocs cs ?st2 of
                       Inl x \<Rightarrow> Inl x
                     | Inr ((ocs1, cs1), st3) \<Rightarrow>
                         Inr ((set_children (Some (oa, ocs1)) ?old2,
                               set_children (Some (a, cs1)) ?vnode2), st3))
                  else Inr ((?old2, ?vnode2), ?st2)
              | _ \<Rightarrow> patch_content eng ?old2 ?vnode2 ?st2"
    have q2: "quiet st ?st2"
      by (auto intro: quiet_trans [OF q1 update_hooks_quiet])
    have fin: "patchVnode eng oldVnode vnode st =
                 (case ?R of
                    Inl x \<Rightarrow> Inl x
                  | Inr ((old3, vnode3), st4) \<Rightarrow>
                      Inr ((old3, vnode3), postpatch_hook oldVnode vnode st4))"
      using False by (subst patchVnode.simps) (simp add: Let_def)
    from "1.prems" [unfolded fin] obtain old3 vnode3 st4 where
      R: "?R = Inr ((old3, vnode3), st4)" and s1: "st1 = postpatch_hook oldVnode vnode st4"
      by (auto split: sum.splits)
    have bR: "built_step (fresh (dom ?st2)) [] ?st2 st4"
    proof (cases "vtext vnode")
      case (Some t)
      with R show ?thesis by (auto intro: patch_content_built)
    next
      case None
      show ?thesis
      proof (cases "children oldVnode")
        case N: None
        with None R show ?thesis by (auto intro: patch_content_built)
      next
        case (Some oacs)
        obtain oa ocs where oacs: "oacs = (oa, ocs)" by (cases oacs)
        show ?thesis
        proof (cases "children vnode")
          case N: None
          with None Some oacs R show ?thesis by (auto intro: patch_content_built)
        next
          case S: (Some acs)
          obtain a cs where acs: "acs = (a, cs)" by (cases acs)
          show ?thesis
          proof (cases "oa = a")
            case True
            with None Some oacs S acs R have "st4 = ?st2" by simp
            then show ?thesis by (simp add: quiet_built)
          next
            case ne: False
            from None Some oacs S acs ne R obtain ocs1 cs1 where
              uc: "updateChildren eng (elm ?vnode2) ocs cs ?st2 = Inr ((ocs1, cs1), st4)"
              by (auto split: sum.splits)
            show ?thesis
              by (rule "1.IH" [OF refl refl False refl refl refl refl _ _ _ _ _ _ _ ne uc])
                 (use None Some oacs S acs in \<open>auto\<close>)
          qed
        qed
      qed
    qed
    have "built_step (fresh (dom st)) [] st st4" by (rule quiet_built_then [OF q2 bR])
    from built_step_then_quiet [OF this, of st1] s1 show ?thesis by simp
  qed
next
  case (2 eng parentElm oldCh0 newCh0 st)
  from "2.prems" have
    "updateChildren_loop eng parentElm newCh0 (uc_init oldCh0 newCh0) st = Inr (r', st1)"
    by (subst (asm) updateChildren.simps)
  from "2.IH" [OF this] show ?case .
next
  case (3 eng p ch0 v st)
  note P = "3.prems"
  show ?case
  proof (cases "oldStartIdx v \<le> oldEndIdx v \<and> newStartIdx v \<le> newEndIdx v")
    case False
    with P show ?thesis by (simp add: loop_done uc_finish_built)
  next
    case g: True
    then have g1: "oldStartIdx v \<le> oldEndIdx v" and g2: "newStartIdx v \<le> newEndIdx v"
      by simp_all
    show ?thesis
    proof (cases "oldStartVnode v")
      case None
      from "3.IH"(1) [OF g None P [unfolded loop_skip_oldStart [OF g1 g2 None]]]
      show ?thesis .
    next
      case os: (Some osv)
      show ?thesis
      proof (cases "oldEndVnode v")
        case None
        from "3.IH"(2) [OF g os None P [unfolded loop_skip_oldEnd [OF g1 g2 os None]]]
        show ?thesis .
      next
        case oe: (Some oev)
        show ?thesis
        proof (cases "slot ch0 (newStartIdx v)")
          case None
          from "3.IH"(3) [OF g os oe None P [unfolded loop_skip_newStart [OF g1 g2 os oe None]]]
          show ?thesis .
        next
          case ns: (Some nsv)
          show ?thesis
          proof (cases "slot ch0 (newEndIdx v)")
            case None
            from "3.IH"(4) [OF g os oe ns None
                P [unfolded loop_skip_newEnd [OF g1 g2 os oe ns None]]]
            show ?thesis .
          next
            case ne: (Some nev)
            show ?thesis
            proof (cases "sameVnode osv nsv")
              case s1: True
              from P [unfolded loop_same_start [OF g1 g2 os oe ns ne s1]]
              obtain o1 n1 t1 where pv: "patchVnode eng osv nsv st = Inr ((o1, n1), t1)"
                and lp: "updateChildren_loop eng p ch0
                           (inc_newStart (inc_oldStart
                              (put_old (oldStartIdx v) o1 (put_new (newStartIdx v) n1 v)))) t1 =
                         Inr (r', st1)"
                by (auto split: sum.splits)
              from built_then [OF "3.IH"(5) [OF g os oe ns ne s1 pv]
                  "3.IH"(6) [OF g os oe ns ne s1 pv refl refl lp]]
              show ?thesis .
            next
              case s1: False
              show ?thesis
              proof (cases "sameVnode oev nev")
                case s2: True
                from P [unfolded loop_same_end [OF g1 g2 os oe ns ne s1 s2]]
                obtain o1 n1 t1 where pv: "patchVnode eng oev nev st = Inr ((o1, n1), t1)"
                  and lp: "updateChildren_loop eng p ch0
                             (dec_newEnd (dec_oldEnd
                                (put_old (oldEndIdx v) o1 (put_new (newEndIdx v) n1 v)))) t1 =
                           Inr (r', st1)"
                  by (auto split: sum.splits)
                from built_then [OF "3.IH"(7) [OF g os oe ns ne s1 s2 pv]
                    "3.IH"(8) [OF g os oe ns ne s1 s2 pv refl refl lp]]
                show ?thesis .
              next
                case s2: False
                show ?thesis
                proof (cases "sameVnode osv nev")
                  case s3: True
                  from P [unfolded loop_moved_right [OF g1 g2 os oe ns ne s1 s2 s3]]
                  obtain o1 n1 t1 sib t2 u t3 where
                    pv: "patchVnode eng osv nev st = Inr ((o1, n1), t1)"
                    and nb: "api_nextSibling (elm oev) t1 = Inr (sib, t2)"
                    and ib: "api_insertBefore p (elm osv) sib t2 = Inr (u, t3)"
                    and lp: "updateChildren_loop eng p ch0
                               (dec_newEnd (inc_oldStart
                                  (put_old (oldStartIdx v) o1 (put_new (newEndIdx v) n1 v)))) t3 =
                             Inr (r', st1)"
                    by (auto split: sum.splits)
                  have q: "quiet t1 t3"
                    using api_nextSibling_same [OF nb] api_insertBefore_step [OF ib] by simp
                  from built_quiet_built [OF "3.IH"(9) [OF g os oe ns ne s1 s2 s3 pv] q
                      "3.IH"(10) [OF g os oe ns ne s1 s2 s3 pv refl refl nb refl ib refl lp]]
                  show ?thesis .
                next
                  case s3: False
                  show ?thesis
                  proof (cases "sameVnode oev nsv")
                    case s4: True
                    from P [unfolded loop_moved_left [OF g1 g2 os oe ns ne s1 s2 s3 s4]]
                    obtain o1 n1 t1 u t2 where
                      pv: "patchVnode eng oev nsv st = Inr ((o1, n1), t1)"
                      and ib: "api_insertBefore p (elm oev) (elm osv) t1 = Inr (u, t2)"
                      and lp: "updateChildren_loop eng p ch0
                                 (inc_newStart (dec_oldEnd
                                    (put_old (oldEndIdx v) o1 (put_new (newStartIdx v) n1 v)))) t2 =
                               Inr (r', st1)"
                      by (auto split: sum.splits)
                    from built_quiet_built [OF "3.IH"(11) [OF g os oe ns ne s1 s2 s3 s4 pv]
                        api_insertBefore_step [OF ib]
                        "3.IH"(12) [OF g os oe ns ne s1 s2 s3 s4 pv refl refl ib refl lp]]
                    show ?thesis .
                  next
                    case s4: False
                    let ?v1 = "v\<lparr>oldKeyToIdx := Some (the_key_map v)\<rparr>"
                    note K = P [unfolded loop_keyed [OF g1 g2 os oe ns ne s1 s2 s3 s4]]
                    show ?thesis
                    proof (cases "obj_get (the_key_map v) (key_name nsv)")
                      case Undefined
                      with K obtain v2 t1 where
                        ins: "insert_new eng p nsv osv ?v1 st = Inr (v2, t1)"
                        and lp: "updateChildren_loop eng p ch0 (inc_newStart v2) t1 = Inr (r', st1)"
                        by (auto split: sum.splits)
                      from built_then [OF insert_new_built [OF ins]
                          "3.IH"(13) [OF g os oe ns ne s1 s2 s3 s4 refl Undefined ins refl lp]]
                      show ?thesis .
                    next
                      case Inherited
                      with K show ?thesis by simp
                    next
                      case k: (Index i)
                      show ?thesis
                      proof (cases "slot (oldCh v) i")
                        case None
                        with k K show ?thesis by simp
                      next
                        case sl: (Some e)
                        then have sl1: "slot (oldCh ?v1) i = Some e" by simp
                        show ?thesis
                        proof (cases "sel e \<noteq> sel nsv")
                          case d: True
                          with k sl K obtain v2 t1 where
                            ins: "insert_new eng p nsv osv ?v1 st = Inr (v2, t1)"
                            and lp: "updateChildren_loop eng p ch0 (inc_newStart v2) t1 =
                                     Inr (r', st1)"
                            by (auto split: sum.splits)
                          from built_then [OF insert_new_built [OF ins]
                              "3.IH"(14) [OF g os oe ns ne s1 s2 s3 s4 refl k sl1 d ins refl lp]]
                          show ?thesis .
                        next
                          case d: False
                          with k sl K obtain o1 n1 t1 u t2 where
                            pv: "patchVnode eng e nsv st = Inr ((o1, n1), t1)"
                            and ib: "api_insertBefore p (elm e) (elm osv) t1 = Inr (u, t2)"
                            and lp: "updateChildren_loop eng p ch0
                                       (inc_newStart (clear_old i
                                          (put_old i o1 (put_new (newStartIdx ?v1) n1 ?v1)))) t2 =
                                     Inr (r', st1)"
                            by (auto split: sum.splits)
                          from built_quiet_built
                            [OF "3.IH"(15) [OF g os oe ns ne s1 s2 s3 s4 refl k sl1 d pv]
                              api_insertBefore_step [OF ib]
                              "3.IH"(16) [OF g os oe ns ne s1 s2 s3 s4 refl k sl1 d pv refl refl
                                ib refl lp]]
                          show ?thesis .
                        qed
                      qed
                    qed
                  qed
                qed
              qed
            qed
          qed
        qed
      qed
    qed
  qed
qed


subsection \<open>A whole pass\<close>

lemma patch_body_built:
  assumes "patch_body eng (root_vnode st oldRoot) vnode st0 = Inr (n1, st6)"
    and "dom st0 = dom st"
  shows "built_step (fresh (dom st)) (unattached_root st oldRoot vnode) st0 st6"
proof (cases "sameVnode (root_vnode st oldRoot) vnode")
  case True
  with assms(1) obtain o1 where
    "patchVnode eng (root_vnode st oldRoot) vnode st0 = Inr ((o1, n1), st6)"
    by (auto simp: patch_body_def split: sum.splits)
  from patch_built(1) [OF this] True assms(2) show ?thesis
    by (simp add: unattached_root_def)
next
  case False
  let ?old = "root_vnode st oldRoot"
  from assms(1) False obtain parent s1 where
    pn: "api_parentNode (elm ?old) st0 = Inr (parent, s1)"
    by (cases "api_parentNode (elm ?old) st0") (auto simp: patch_body_def)
  then obtain e where e: "elm ?old = Some e" and s1: "s1 = st0"
    and par: "parent = parentNode (dom st) e"
    using assms(2) by (auto simp: api_parentNode_def split: option.splits)
  from assms(1) False pn s1 obtain m1 s2 where c0: "createElm eng vnode st0 = Inr (m1, s2)"
    by (cases "createElm eng vnode st0") (auto simp: patch_body_def)
  show ?thesis
  proof (cases "parent = None")
    case True
    with assms(1) False pn s1 c0 have "s2 = st6"
      by (simp add: patch_body_def)
    with createElm_built(1) [OF c0] assms(2) False e par True show ?thesis
      by (simp add: unattached_root_def)
  next
    case F: False
    with assms(1) False pn s1 c0 obtain sib s3 u s4 where
      n: "api_nextSibling (elm ?old) s2 = Inr (sib, s3)"
      and a: "api_insertBefore parent (elm m1) sib s3 = Inr (u, s4)"
      and b: "removeVnodes eng parent [Some ?old] 0 0 s4 = Inr ((), st6)"
      by (auto simp: patch_body_def split: sum.splits)
    from api_nextSibling_same [OF n] a have a': "api_insertBefore parent (elm m1) sib s2 = Inr (u, s4)"
      by simp
    from built_step_then_quiet [OF built_insert [OF c0 a']
        quiet_result [OF removeVnodes_quiet b]]
    show ?thesis
      using assms(2) False e par F by (auto simp: unattached_root_def)
  qed
qed

lemma queued_placed:
  "placed_in eng h lo hi v \<Longrightarrow> u \<in> set (queued eng v) \<Longrightarrow>
     \<exists>c. elm u = Some c \<and> (elm v = Some c \<or> (\<exists>q. parent_of h c = Some q))"
  "placed_list_in eng h p lo hi cs \<Longrightarrow> u \<in> set (queued_list eng cs) \<Longrightarrow>
     \<exists>c q. elm u = Some c \<and> parent_of h c = Some q"
proof (induction eng h lo hi v and eng h p lo hi cs
    rule: placed_in_placed_list_in.induct)
  case (1 eng h lo hi i s k d ch t e)
  from "1.prems"(1) obtain n where e: "e = Some n" by (auto split: option.splits)
  show ?case
  proof (cases "s = Some ''!''")
    case True
    with "1.prems"(2) show ?thesis by simp
  next
    case False
    show ?thesis
    proof (cases "if s = None \<and> \<not> fragments eng then None else ch")
      case None
      with "1.prems"(2) False e show ?thesis
        by (auto split: option.splits if_splits)
    next
      case (Some acs)
      obtain a cs where acs: "acs = (a, cs)" by (cases acs)
      from "1.prems"(1) e False Some acs have
        pl: "placed_list_in eng h n (Suc n) hi cs" by simp
      from "1.prems"(2) False Some acs consider
        (kid) "u \<in> set (queued_list eng cs)" | (self) "u = VNode i s k d ch t e"
        by (auto split: option.splits if_splits)
      then show ?thesis
      proof cases
        case kid
        from "1.IH" [OF e False Some [unfolded acs] refl pl kid] show ?thesis by blast
      next
        case self
        with e show ?thesis by simp
      qed
    qed
  qed
next
  case (2 eng h p lo hi)
  then show ?case by simp
next
  case (3 eng h p lo hi c cs)
  from "3.prems"(1) have rest: "placed_list_in eng h p lo hi cs" by simp
  show ?case
  proof (cases c)
    case None
    with "3.prems"(2) "3.IH"(2) [OF rest] show ?thesis by simp
  next
    case (Some v)
    from "3.prems"(1) Some have b: "placed_in eng h lo hi v" by simp
    from placed_in_range [OF b] obtain m where m: "elm v = Some m" by blast
    from "3.prems"(1) Some m have a: "parent_of h m = Some p" by simp
    from "3.prems"(2) Some consider "u \<in> set (queued eng v)" | "u \<in> set (queued_list eng cs)"
      by auto
    then show ?thesis
    proof cases
      case 1
      from "3.IH"(1) [OF Some b 1] m a show ?thesis by auto
    next
      case 2
      from "3.IH"(2) [OF rest 2] show ?thesis .
    qed
  qed
qed

end
